theory Spec2Isabelle
  imports Complex_Main
begin

section \<open>The computation graph of \<open>computatoalgraph.c\<close>\<close>

text \<open>
  The program keeps every node of the graph in a heap cell of type \<open>Value\<close> and links the
  nodes by pointers. The embedding follows that layout: an address is a natural number
  (\<open>0\<close> is \<open>NULL\<close>), the heap is a partial map from addresses to cells, and every function
  of the program that writes through a pointer takes the heap and returns the new one.

  \<^item> \<open>double\<close> is read as \<open>real\<close>: rounding and overflow are outside the model. The
    concrete values used below (small integers) are exact in binary64, so there the two
    agree. The one operation that takes finite numbers to an infinity or NaN without
    overflow is \<open>pow\<close>; a call that would store such a value ends in \<open>NotFinite\<close>.
  \<^item> The pair \<open>children\<close>, \<open>num_children\<close> of the struct is one list; \<open>num_children\<close>
    is its length.
  \<^item> The function pointer \<open>backward\<close> of the struct is the field \<open>backward_fn\<close>: \<open>None\<close>
    is \<open>NULL\<close>, \<open>Some r\<close> names one of the five \<open>_backward_*\<close> functions.
  \<^item> An address read as \<open>long\<close> is not negative, so \<open>(long)v % 100\<close> is \<open>v mod 100\<close>.
  \<^item> \<open>push\<close>, \<open>pop\<close> and \<open>is_empty\<close>, which nothing in the program calls, and
    \<open>free_value\<close> are left out.
\<close>

type_synonym addr = nat

datatype rule = Backward_add | Backward_mul | Backward_pow | Backward_exp | Backward_relu

record Value =
  data :: real
  grad :: real
  children :: "addr list"
  backward_fn :: "rule option"

type_synonym heap = "addr \<Rightarrow> Value option"

text \<open>
  What a call can end in besides returning a heap of real numbers: a read or write
  through a pointer that is \<open>NULL\<close> or not allocated, a write past the end of
  \<open>topo[100]\<close> (both undefined behaviour in C), \<open>exit(code)\<close>, which ends the process,
  and \<open>NotFinite\<close>: the call has computed an infinity or NaN and stored it in a node. The
  C goes on with that value; the heap of the model, which holds reals, cannot follow it,
  and the model says so instead of putting a number there.
\<close>

datatype error = InvalidPointer | TopoOverflow | Exit int | NotFinite

definition bind_err :: "error + 'a \<Rightarrow> ('a \<Rightarrow> error + 'b) \<Rightarrow> error + 'b" where
  "bind_err r f = (case r of Inl e \<Rightarrow> Inl e | Inr x \<Rightarrow> f x)"

definition deref :: "heap \<Rightarrow> addr \<Rightarrow> error + Value" where
  "deref h p = (case h p of None \<Rightarrow> Inl InvalidPointer | Some node \<Rightarrow> Inr node)"

text \<open>\<open>p->grad += x\<close> and \<open>p->grad = x\<close>.\<close>

definition add_grad :: "heap \<Rightarrow> addr \<Rightarrow> real \<Rightarrow> error + heap" where
  "add_grad h p x = bind_err (deref h p) (\<lambda>node. Inr (h(p \<mapsto> node\<lparr>grad := grad node + x\<rparr>)))"

definition set_grad :: "heap \<Rightarrow> addr \<Rightarrow> real \<Rightarrow> error + heap" where
  "set_grad h p x = bind_err (deref h p) (\<lambda>node. Inr (h(p \<mapsto> node\<lparr>grad := x\<rparr>)))"

text \<open>
  \<open>pow\<close> of the C library on finite arguments. The result is \<open>None\<close> where the library
  yields an infinity or NaN: for a zero base with a negative exponent (a pole,
  \<open>pow(0.0, -1.0)\<close> is \<open>+inf\<close>) and for a negative base with an exponent that is not a
  whole number (NaN). Otherwise it is the integer power when the exponent is a whole
  number (so \<open>pow(-2.0, 2.0) = 4.0\<close> and \<open>pow(0.0, 0.0) = 1.0\<close>), and \<open>x powr y\<close>, that
  is \<open>exp (y * ln x)\<close> for \<open>x > 0\<close> and 0 for \<open>x = 0\<close>, when it is not.
\<close>

definition c_pow :: "real \<Rightarrow> real \<Rightarrow> real option" where
  "c_pow x y =
     (if x = 0 \<and> y < 0 then None
      else if y = of_int \<lfloor>y\<rfloor> then Some (x powi \<lfloor>y\<rfloor>)
      else if x < 0 then None
      else Some (x powr y))"

subsection \<open>Node construction\<close>

text \<open>
  \<open>new_value\<close> calls \<open>malloc\<close> twice: for the cell, and for the array of children when
  \<open>num_children > 0\<close>. The answers of the host are arguments of the model: \<open>cell\<close> is the
  address returned for the cell (\<open>None\<close> is \<open>NULL\<close>), \<open>arr\<close> says whether the array
  could be allocated. On \<open>NULL\<close> the program calls \<open>exit(1)\<close>.
\<close>

definition new_value :: "addr option \<Rightarrow> bool \<Rightarrow> heap \<Rightarrow> real \<Rightarrow> addr list \<Rightarrow> error + addr \<times> heap" where
  "new_value cell arr h d cs =
     (case cell of
        None \<Rightarrow> Inl (Exit 1)
      | Some v \<Rightarrow>
          if length cs > 0 then
            (if \<not> arr then Inl (Exit 1)
             else Inr (v, h(v \<mapsto> \<lparr>data = d, grad = 0, children = cs, backward_fn = None\<rparr>)))
          else Inr (v, h(v \<mapsto> \<lparr>data = d, grad = 0, children = [], backward_fn = None\<rparr>)))"

text \<open>\<open>out->backward = f\<close> on the node just built.\<close>

definition set_backward :: "rule \<Rightarrow> addr \<times> heap \<Rightarrow> error + addr \<times> heap" where
  "set_backward f r =
     bind_err (deref (snd r) (fst r)) (\<lambda>node.
       Inr (fst r, (snd r)(fst r \<mapsto> node\<lparr>backward_fn := Some f\<rparr>)))"

definition add :: "addr option \<Rightarrow> bool \<Rightarrow> heap \<Rightarrow> addr \<Rightarrow> addr \<Rightarrow> error + addr \<times> heap" where
  "add cell arr h a b =
     bind_err (deref h a) (\<lambda>va.
     bind_err (deref h b) (\<lambda>vb.
     bind_err (new_value cell arr h (data va + data vb) [a, b]) (set_backward Backward_add)))"

definition mul :: "addr option \<Rightarrow> bool \<Rightarrow> heap \<Rightarrow> addr \<Rightarrow> addr \<Rightarrow> error + addr \<times> heap" where
  "mul cell arr h a b =
     bind_err (deref h a) (\<lambda>va.
     bind_err (deref h b) (\<lambda>vb.
     bind_err (new_value cell arr h (data va * data vb) [a, b]) (set_backward Backward_mul)))"

text \<open>
  \<open>my_pow\<close> evaluates \<open>pow\<close> and then calls \<open>new_value\<close>, whatever \<open>pow\<close> has
  yielded. When that is no real number, \<open>new_value\<close> still ends the process if \<open>malloc\<close>
  fails; if it does not, the node built holds an infinity or NaN.
\<close>

definition my_pow :: "addr option \<Rightarrow> bool \<Rightarrow> heap \<Rightarrow> addr \<Rightarrow> addr \<Rightarrow> error + addr \<times> heap" where
  "my_pow cell arr h base exp_val =
     bind_err (deref h base) (\<lambda>vb.
     bind_err (deref h exp_val) (\<lambda>ve.
       case c_pow (data vb) (data ve) of
         Some d \<Rightarrow>
           bind_err (new_value cell arr h d [base, exp_val]) (set_backward Backward_pow)
       | None \<Rightarrow>
           bind_err (new_value cell arr h 0 [base, exp_val]) (\<lambda>r. Inl NotFinite)))"

definition my_exp :: "addr option \<Rightarrow> bool \<Rightarrow> heap \<Rightarrow> addr \<Rightarrow> error + addr \<times> heap" where
  "my_exp cell arr h a =
     bind_err (deref h a) (\<lambda>va.
     bind_err (new_value cell arr h (exp (data va)) [a]) (set_backward Backward_exp))"

definition relu :: "addr option \<Rightarrow> bool \<Rightarrow> heap \<Rightarrow> addr \<Rightarrow> error + addr \<times> heap" where
  "relu cell arr h a =
     bind_err (deref h a) (\<lambda>va.
     bind_err (new_value cell arr h (if data va > 0 then data va else 0) [a])
       (set_backward Backward_relu))"

subsection \<open>The backward rules\<close>

text \<open>
  Each rule reads \<open>out->grad\<close> again in every statement, as the C does: when an operand
  is the node itself the second statement sees the first one's write. Where \<open>pow\<close>
  yields an infinity or NaN, the product that \<open>_backward_pow\<close> adds to the gradient of
  the base is one as well, whatever the other factors, and so is the sum.
\<close>

definition backward_add :: "heap \<Rightarrow> addr \<Rightarrow> error + heap" where
  "backward_add h out =
     bind_err (deref h out) (\<lambda>vo.
       if length (children vo) < 2 then Inr h
       else
         bind_err (add_grad h (children vo ! 0) (grad vo)) (\<lambda>h1.
         bind_err (deref h1 out) (\<lambda>o1.
           add_grad h1 (children o1 ! 1) (grad o1))))"

definition backward_mul :: "heap \<Rightarrow> addr \<Rightarrow> error + heap" where
  "backward_mul h out =
     bind_err (deref h out) (\<lambda>vo.
       if length (children vo) < 2 then Inr h
       else
         bind_err (deref h (children vo ! 1)) (\<lambda>c1.
         bind_err (add_grad h (children vo ! 0) (data c1 * grad vo)) (\<lambda>h1.
         bind_err (deref h1 out) (\<lambda>o1.
         bind_err (deref h1 (children o1 ! 0)) (\<lambda>c0.
           add_grad h1 (children o1 ! 1) (data c0 * grad o1))))))"

definition backward_pow :: "heap \<Rightarrow> addr \<Rightarrow> error + heap" where
  "backward_pow h out =
     bind_err (deref h out) (\<lambda>vo.
       if length (children vo) < 2 then Inr h
       else
         bind_err (deref h (children vo ! 0)) (\<lambda>b.
         bind_err (deref h (children vo ! 1)) (\<lambda>e.
           case c_pow (data b) (data e - 1) of
             None \<Rightarrow> Inl NotFinite
           | Some w \<Rightarrow> add_grad h (children vo ! 0) ((data e * w) * grad vo))))"

definition backward_exp :: "heap \<Rightarrow> addr \<Rightarrow> error + heap" where
  "backward_exp h out =
     bind_err (deref h out) (\<lambda>vo.
       if length (children vo) < 1 then Inr h
       else add_grad h (children vo ! 0) (data vo * grad vo))"

definition backward_relu :: "heap \<Rightarrow> addr \<Rightarrow> error + heap" where
  "backward_relu h out =
     bind_err (deref h out) (\<lambda>vo.
       if length (children vo) < 1 then Inr h
       else add_grad h (children vo ! 0) ((if data vo > 0 then 1 else 0) * grad vo))"

text \<open>The call through the function pointer.\<close>

fun call_backward :: "rule \<Rightarrow> heap \<Rightarrow> addr \<Rightarrow> error + heap" where
  "call_backward Backward_add h out = backward_add h out"
| "call_backward Backward_mul h out = backward_mul h out"
| "call_backward Backward_pow h out = backward_pow h out"
| "call_backward Backward_exp h out = backward_exp h out"
| "call_backward Backward_relu h out = backward_relu h out"

subsection \<open>Traversals\<close>

text \<open>
  Both traversals are recursive in C. In the model the first argument bounds the depth
  of the recursion: \<open>None\<close> says that the bound was reached, that is, that the call has
  not returned within that depth. \<open>for_each\<close> is the \<open>for\<close> loop over the children; it
  stops at the first call that does not return or that fails.
\<close>

fun for_each :: "('a \<Rightarrow> 's \<Rightarrow> (error + 's) option) \<Rightarrow> 'a list \<Rightarrow> 's \<Rightarrow> (error + 's) option" where
  "for_each f [] s = Some (Inr s)"
| "for_each f (x # xs) s =
     (case f x s of
        None \<Rightarrow> None
      | Some (Inl e) \<Rightarrow> Some (Inl e)
      | Some (Inr s') \<Rightarrow> for_each f xs s')"

text \<open>
  \<open>zero_grad_graph\<close>. The state is the heap and, as a ghost, the list of the nodes whose
  \<open>grad\<close> has been assigned so far, in the order of the assignments. The C reads
  \<open>v->children[i]\<close> anew in every round of the loop; since no call changes a list of
  children, the model reads the list once.
\<close>

type_synonym zero_state = "heap \<times> addr list"

primrec zero_grad_graph :: "nat \<Rightarrow> addr \<Rightarrow> zero_state \<Rightarrow> (error + zero_state) option" where
  "zero_grad_graph 0 v s = None"
| "zero_grad_graph (Suc n) v s =
     (if v = 0 then Some (Inr s)
      else case fst s v of
        None \<Rightarrow> Some (Inl InvalidPointer)
      | Some node \<Rightarrow>
          for_each (zero_grad_graph n) (children node)
            ((fst s)(v \<mapsto> node\<lparr>grad := 0\<rparr>), snd s @ [v]))"

text \<open>
  \<open>build_topo\<close>. The state is \<open>topo\<close> (with \<open>*count\<close> its length) and the table
  \<open>visited\<close>, an array of 100 \<open>int\<close> indexed by \<open>(long)v % 100\<close>. The heap is only
  read. The C writes \<open>topo[*count]\<close> unchecked; the model says \<open>TopoOverflow\<close> where that
  write would fall outside the 100 entries of \<open>topo\<close>.
\<close>

type_synonym topo_state = "addr list \<times> (nat \<Rightarrow> int)"

primrec build_topo :: "nat \<Rightarrow> heap \<Rightarrow> addr \<Rightarrow> topo_state \<Rightarrow> (error + topo_state) option" where
  "build_topo 0 h v s = None"
| "build_topo (Suc n) h v s =
     (if snd s (v mod 100) \<noteq> 0 then Some (Inr s)
      else case h v of
        None \<Rightarrow> Some (Inl InvalidPointer)
      | Some node \<Rightarrow>
          (case for_each (build_topo n h) (children node) (fst s, (snd s)(v mod 100 := 1)) of
             None \<Rightarrow> None
           | Some (Inl e) \<Rightarrow> Some (Inl e)
           | Some (Inr s') \<Rightarrow>
               if length (fst s') \<ge> 100 then Some (Inl TopoOverflow)
               else Some (Inr (fst s' @ [v], snd s'))))"

text \<open>The loop of \<open>backward\<close>, over \<open>topo[count - 1]\<close> down to \<open>topo[0]\<close>.\<close>

fun backward_loop :: "heap \<Rightarrow> addr list \<Rightarrow> error + heap" where
  "backward_loop h [] = Inr h"
| "backward_loop h (v # vs) =
     bind_err (deref h v) (\<lambda>node.
       case backward_fn node of
         None \<Rightarrow> backward_loop h vs
       | Some f \<Rightarrow> bind_err (call_backward f h v) (\<lambda>h'. backward_loop h' vs))"

definition backward :: "nat \<Rightarrow> heap \<Rightarrow> addr \<Rightarrow> (error + heap) option" where
  "backward fuel h v =
     (case build_topo fuel h v ([], \<lambda>i. 0) of
        None \<Rightarrow> None
      | Some (Inl e) \<Rightarrow> Some (Inl e)
      | Some (Inr s) \<Rightarrow>
          Some (bind_err (set_grad h v 1) (\<lambda>h1. backward_loop h1 (rev (fst s)))))"

section \<open>Graphs, and what the traversals are measured against\<close>

text \<open>
  The nodes reachable from \<open>r\<close> along operand pointers, \<open>r\<close> included, and the operands of
  one node.
\<close>

inductive_set reach :: "heap \<Rightarrow> addr \<Rightarrow> addr set" for h :: heap and r :: addr where
  root: "r \<in> reach h r"
| step: "p \<in> reach h r \<Longrightarrow> h p = Some node \<Longrightarrow> c \<in> set (children node) \<Longrightarrow> c \<in> reach h r"

definition operands :: "heap \<Rightarrow> addr \<Rightarrow> addr set" where
  "operands k n = (case k n of None \<Rightarrow> {} | Some node \<Rightarrow> set (children node))"

text \<open>
  The number of operand paths from \<open>r\<close> to \<open>p\<close> with fewer than \<open>n\<close> pointers; two
  paths differ when they differ in a position of an operand list.
\<close>

primrec npaths :: "nat \<Rightarrow> heap \<Rightarrow> addr \<Rightarrow> addr \<Rightarrow> nat" where
  "npaths 0 h r p = 0"
| "npaths (Suc n) h r p =
     (if r = p then 1 else 0) +
     (case h r of None \<Rightarrow> 0 | Some node \<Rightarrow> sum_list (map (\<lambda>c. npaths n h c p) (children node)))"

text \<open>
  A heap is closed when \<open>NULL\<close> is not allocated and every operand pointer leads to an
  allocated node. It is a DAG when, besides, some rank falls along every operand pointer;
  a closed heap has a cycle below \<open>v\<close> when some node reachable from \<open>v\<close> is reachable
  from one of its own operands.
\<close>

definition closed_heap :: "heap \<Rightarrow> bool" where
  "closed_heap h \<longleftrightarrow> h 0 = None \<and> (\<forall>p node. h p = Some node \<longrightarrow> set (children node) \<subseteq> dom h)"

definition dag :: "heap \<Rightarrow> (addr \<Rightarrow> nat) \<Rightarrow> bool" where
  "dag h rk \<longleftrightarrow> closed_heap h \<and>
     (\<forall>p node. h p = Some node \<longrightarrow> (\<forall>c \<in> set (children node). rk c < rk p))"

definition cyclic_from :: "heap \<Rightarrow> addr \<Rightarrow> bool" where
  "cyclic_from h v \<longleftrightarrow> (\<exists>w \<in> reach h v. \<exists>c \<in> operands h w. w \<in> reach h c)"

text \<open>
  Two heaps have the same shape when they allocate the same addresses and agree on every
  field but \<open>grad\<close>.
\<close>

definition erase :: "Value \<Rightarrow> Value" where
  "erase node = node\<lparr>grad := 0\<rparr>"

definition same_shape :: "heap \<Rightarrow> heap \<Rightarrow> bool" where
  "same_shape h k \<longleftrightarrow> (\<forall>p. map_option erase (k p) = map_option erase (h p))"

definition gradient :: "heap \<Rightarrow> addr \<Rightarrow> real option" where
  "gradient h p = map_option grad (h p)"

text \<open>The heap \<open>h\<close> with \<open>d p\<close> added to the gradient of every node \<open>p\<close>.\<close>

definition shift :: "heap \<Rightarrow> (addr \<Rightarrow> real) \<Rightarrow> heap" where
  "shift h d = (\<lambda>p. map_option (\<lambda>node. node\<lparr>grad := grad node + d p\<rparr>) (h p))"

text \<open>The nodes that carry a backward rule.\<close>

definition ruled :: "heap \<Rightarrow> addr set" where
  "ruled h = {p. \<exists>node. h p = Some node \<and> backward_fn node \<noteq> None}"

text \<open>
  In \<open>h\<close> every rule computes a real number: for every node with the rule
  \<open>_backward_pow\<close> and two allocated operands, \<open>pow(base, exponent - 1)\<close> is one.
\<close>

definition pow_defined :: "heap \<Rightarrow> bool" where
  "pow_defined h \<longleftrightarrow>
     (\<forall>p vo vb ve. h p = Some vo \<and> backward_fn vo = Some Backward_pow \<and>
        \<not> length (children vo) < 2 \<and>
        h (children vo ! 0) = Some vb \<and> h (children vo ! 1) = Some ve
        \<longrightarrow> c_pow (data vb) (data ve - 1) \<noteq> None)"

text \<open>The number of slots of \<open>visited\<close> that are still 0.\<close>

definition free_slots :: "(nat \<Rightarrow> int) \<Rightarrow> nat" where
  "free_slots vis = card {i. i < 100 \<and> vis i = 0}"

text \<open>
  What a returning call of \<open>build_topo\<close> has done between the states \<open>s\<close> and \<open>s'\<close>: it
  has appended allocated nodes of \<open>R\<close> to \<open>topo\<close>, one for every slot it has marked, and
  has cleared no slot.
\<close>

definition emitted :: "heap \<Rightarrow> addr set \<Rightarrow> topo_state \<Rightarrow> topo_state \<Rightarrow> bool" where
  "emitted h R s s' \<longleftrightarrow>
     (\<exists>ys. fst s' = fst s @ ys \<and> set ys \<subseteq> R \<inter> dom h \<and>
        length ys + free_slots (snd s') = free_slots (snd s)) \<and>
     (\<forall>i. snd s i \<noteq> 0 \<longrightarrow> snd s' i \<noteq> 0)"

text \<open>
  A list has its operands first when every operand of each element stands at a smaller
  index. \<open>sorting\<close> is what holds of the state of \<open>build_topo\<close> during a traversal of
  the nodes \<open>W\<close>, with \<open>A\<close> the nodes whose call is still running (marked, not yet
  emitted), when no two nodes of \<open>W\<close> share a slot of \<open>visited\<close>.
\<close>

definition operands_first :: "heap \<Rightarrow> addr list \<Rightarrow> bool" where
  "operands_first h xs \<longleftrightarrow> (\<forall>i < length xs. operands h (xs ! i) \<subseteq> set (take i xs))"

definition sorting :: "heap \<Rightarrow> addr set \<Rightarrow> addr set \<Rightarrow> topo_state \<Rightarrow> bool" where
  "sorting h W A s \<longleftrightarrow>
     distinct (fst s) \<and> operands_first h (fst s) \<and> set (fst s) \<subseteq> W \<and> A \<inter> set (fst s) = {} \<and>
     (\<forall>p \<in> W. snd s (p mod 100) \<noteq> 0 \<longleftrightarrow> p \<in> set (fst s) \<union> A)"

text \<open>
  What a returning call of \<open>zero_grad_graph\<close> has done between \<open>s\<close> and \<open>s'\<close>: the shape
  is the one of \<open>h\<close>, every node of \<open>R\<close> has gradient 0, the cells outside \<open>R\<close> and the
  cells whose gradient was 0 already are as they were, and the assignments made are to
  the nodes of \<open>R\<close>.
\<close>

definition zeroed :: "heap \<Rightarrow> addr set \<Rightarrow> zero_state \<Rightarrow> zero_state \<Rightarrow> bool" where
  "zeroed h R s s' \<longleftrightarrow>
     same_shape h (fst s') \<and>
     (\<forall>p \<in> R. gradient (fst s') p = Some 0) \<and>
     (\<forall>p. p \<notin> R \<longrightarrow> fst s' p = fst s p) \<and>
     (\<forall>p. gradient (fst s) p = Some 0 \<longrightarrow> fst s' p = fst s p) \<and>
     (\<exists>ws. snd s' = snd s @ ws \<and> set ws = R)"

section \<open>The graphs of the examples\<close>

text \<open>
  A graph is built as the program builds it, by \<open>new_value\<close> and the operations, at the
  addresses \<open>malloc\<close> hands out; the result is the root and the heap. The functions
  below run a traversal on such a result and read a field of the outcome.
\<close>

definition root_data :: "error + addr \<times> heap \<Rightarrow> real option" where
  "root_data g = (case g of Inl e \<Rightarrow> None | Inr r \<Rightarrow> map_option data (snd r (fst r)))"

definition backward_on :: "nat \<Rightarrow> error + addr \<times> heap \<Rightarrow> (error + heap) option" where
  "backward_on fuel g = (case g of Inl e \<Rightarrow> Some (Inl e) | Inr r \<Rightarrow> backward fuel (snd r) (fst r))"

definition backward_again :: "nat \<Rightarrow> addr \<Rightarrow> (error + heap) option \<Rightarrow> (error + heap) option" where
  "backward_again fuel v r = (case r of Some (Inr h) \<Rightarrow> backward fuel h v | _ \<Rightarrow> r)"

definition gradient_in :: "(error + heap) option \<Rightarrow> addr \<Rightarrow> real option" where
  "gradient_in r p = (case r of Some (Inr h) \<Rightarrow> gradient h p | _ \<Rightarrow> None)"

definition topo_on :: "nat \<Rightarrow> error + addr \<times> heap \<Rightarrow> addr list option" where
  "topo_on fuel g =
     (case g of Inl e \<Rightarrow> None
      | Inr r \<Rightarrow>
          (case build_topo fuel (snd r) (fst r) ([], \<lambda>i. 0) of
             Some (Inr s) \<Rightarrow> Some (fst s) | _ \<Rightarrow> None))"

definition writes_on :: "nat \<Rightarrow> error + addr \<times> heap \<Rightarrow> addr list option" where
  "writes_on fuel g =
     (case g of Inl e \<Rightarrow> None
      | Inr r \<Rightarrow>
          (case zero_grad_graph fuel (fst r) (snd r, []) of
             Some (Inr s) \<Rightarrow> Some (snd s) | _ \<Rightarrow> None))"

text \<open>
  The graph of \<open>main\<close>: \<open>f = relu(add(mul(a, b), my_pow(c, e)))\<close> with \<open>a = 2\<close>, \<open>b = 3\<close>,
  \<open>c = -2\<close>, \<open>e = 2\<close>, built in the order of \<open>main\<close> in an empty heap, at the addresses
  given.
\<close>

definition demo_graph ::
  "addr \<Rightarrow> addr \<Rightarrow> addr \<Rightarrow> addr \<Rightarrow> addr \<Rightarrow> addr \<Rightarrow> addr \<Rightarrow> addr \<Rightarrow> error + addr \<times> heap" where
  "demo_graph pa pb pc pm pe pp ps pf =
     bind_err (new_value (Some pa) True Map.empty 2 []) (\<lambda>a.
     bind_err (new_value (Some pb) True (snd a) 3 []) (\<lambda>b.
     bind_err (new_value (Some pc) True (snd b) (-2) []) (\<lambda>c.
     bind_err (mul (Some pm) True (snd c) (fst a) (fst b)) (\<lambda>mul_out.
     bind_err (new_value (Some pe) True (snd mul_out) 2 []) (\<lambda>e.
     bind_err (my_pow (Some pp) True (snd e) (fst c) (fst e)) (\<lambda>pow_out.
     bind_err (add (Some ps) True (snd pow_out) (fst mul_out) (fst pow_out)) (\<lambda>add_out.
       relu (Some pf) True (snd add_out) (fst add_out))))))))"

text \<open>A leaf \<open>x = 5.0\<close> at \<open>px\<close> and \<open>y = add(x, x)\<close> at \<open>py\<close>.\<close>

definition shared_graph :: "heap \<Rightarrow> addr \<Rightarrow> addr \<Rightarrow> error + addr \<times> heap" where
  "shared_graph h px py =
     bind_err (new_value (Some px) True h 5 []) (\<lambda>x. add (Some py) True (snd x) (fst x) (fst x))"

definition shared_heap :: heap where
  "shared_heap =
     [4096 \<mapsto> \<lparr>data = 5, grad = 0, children = [], backward_fn = None\<rparr>,
      4144 \<mapsto> \<lparr>data = 10, grad = 0, children = [4096, 4096], backward_fn = Some Backward_add\<rparr>]"

text \<open>The same graph with the gradients that \<open>backward(y)\<close> leaves.\<close>

definition used_heap :: heap where
  "used_heap =
     [4096 \<mapsto> \<lparr>data = 5, grad = 2, children = [], backward_fn = None\<rparr>,
      4144 \<mapsto> \<lparr>data = 10, grad = 1, children = [4096, 4096], backward_fn = Some Backward_add\<rparr>]"


text \<open>A leaf \<open>x = 1.0\<close> at \<open>px\<close>, \<open>m = relu(x)\<close> at \<open>pm\<close> and \<open>f = relu(m)\<close> at \<open>pf\<close>.\<close>

definition chain_graph :: "addr \<Rightarrow> addr \<Rightarrow> addr \<Rightarrow> error + addr \<times> heap" where
  "chain_graph px pm pf =
     bind_err (new_value (Some px) True Map.empty 1 []) (\<lambda>x.
     bind_err (relu (Some pm) True (snd x) (fst x)) (\<lambda>m.
       relu (Some pf) True (snd m) (fst m)))"

text \<open>The heap of that graph at the addresses 4096, 4144 and 4192.\<close>

definition chain_heap :: heap where
  "chain_heap =
     [4096 \<mapsto> \<lparr>data = 1, grad = 0, children = [], backward_fn = None\<rparr>,
      4144 \<mapsto> \<lparr>data = 1, grad = 0, children = [4096], backward_fn = Some Backward_relu\<rparr>,
      4192 \<mapsto> \<lparr>data = 1, grad = 0, children = [4144], backward_fn = Some Backward_relu\<rparr>]"

text \<open>
  Leaves \<open>c = -2.0\<close> at \<open>pc\<close> and \<open>e = 2.0\<close> at \<open>pe\<close>, \<open>p = my_pow(c, e)\<close> at \<open>pp\<close>
  and \<open>f = relu(p)\<close> at \<open>pf\<close>.
\<close>

definition pow_graph :: "addr \<Rightarrow> addr \<Rightarrow> addr \<Rightarrow> addr \<Rightarrow> error + addr \<times> heap" where
  "pow_graph pc pe pp pf =
     bind_err (new_value (Some pc) True Map.empty (-2) []) (\<lambda>c.
     bind_err (new_value (Some pe) True (snd c) 2 []) (\<lambda>e.
     bind_err (my_pow (Some pp) True (snd e) (fst c) (fst e)) (\<lambda>p.
       relu (Some pf) True (snd p) (fst p))))"

text \<open>A node \<open>my_pow(c, e)\<close> with \<open>c = -2.0\<close>, \<open>e = 2.0\<close> and gradient 1.\<close>

definition pow_cell_heap :: heap where
  "pow_cell_heap =
     [4192 \<mapsto> \<lparr>data = -2, grad = 0, children = [], backward_fn = None\<rparr>,
      4320 \<mapsto> \<lparr>data = 2, grad = 0, children = [], backward_fn = None\<rparr>,
      4368 \<mapsto> \<lparr>data = 4, grad = 1, children = [4192, 4320], backward_fn = Some Backward_pow\<rparr>]"

text \<open>
  Two nodes that are each other's operand. No operation builds such a heap; a caller
  gets it by writing into \<open>children\<close> of a node it holds.
\<close>

definition cycle_heap :: heap where
  "cycle_heap =
     [4096 \<mapsto> \<lparr>data = 1, grad = 0, children = [4144], backward_fn = Some Backward_relu\<rparr>,
      4144 \<mapsto> \<lparr>data = 1, grad = 0, children = [4096], backward_fn = Some Backward_relu\<rparr>]"

section \<open>Basic facts\<close>

lemma bind_err_simps:
  "bind_err (Inl e) f = Inl e"
  "bind_err (Inr x) f = f x"
  by (simp_all add: bind_err_def)

lemma build_topo_numeral:
  "build_topo (numeral k) h v s =
     (if snd s (v mod 100) \<noteq> 0 then Some (Inr s)
      else case h v of
        None \<Rightarrow> Some (Inl InvalidPointer)
      | Some node \<Rightarrow>
          (case for_each (build_topo (pred_numeral k) h) (children node)
                  (fst s, (snd s)(v mod 100 := 1)) of
             None \<Rightarrow> None
           | Some (Inl e) \<Rightarrow> Some (Inl e)
           | Some (Inr s') \<Rightarrow>
               if length (fst s') \<ge> 100 then Some (Inl TopoOverflow)
               else Some (Inr (fst s' @ [v], snd s'))))"
proof -
  have "build_topo (numeral k) h v s = build_topo (Suc (pred_numeral k)) h v s"
    by (simp only: numeral_eq_Suc)
  then show ?thesis by (simp only: build_topo.simps)
qed

lemma zero_grad_graph_numeral:
  "zero_grad_graph (numeral k) v s =
     (if v = 0 then Some (Inr s)
      else case fst s v of
        None \<Rightarrow> Some (Inl InvalidPointer)
      | Some node \<Rightarrow>
          for_each (zero_grad_graph (pred_numeral k)) (children node)
            ((fst s)(v \<mapsto> node\<lparr>grad := 0\<rparr>), snd s @ [v]))"
proof -
  have "zero_grad_graph (numeral k) v s = zero_grad_graph (Suc (pred_numeral k)) v s"
    by (simp only: numeral_eq_Suc)
  then show ?thesis by (simp only: zero_grad_graph.simps)
qed

lemma npaths_numeral:
  "npaths (numeral k) h r p =
     (if r = p then 1 else 0) +
     (case h r of None \<Rightarrow> 0
      | Some node \<Rightarrow> sum_list (map (\<lambda>c. npaths (pred_numeral k) h c p) (children node)))"
proof -
  have "npaths (numeral k) h r p = npaths (Suc (pred_numeral k)) h r p"
    by (simp only: numeral_eq_Suc)
  then show ?thesis by (simp only: npaths.simps)
qed

lemmas rule_defs = backward_add_def backward_mul_def backward_pow_def backward_exp_def
  backward_relu_def add_grad_def set_grad_def deref_def bind_err_simps

lemmas build_defs = new_value_def set_backward_def add_def mul_def my_pow_def my_exp_def
  relu_def deref_def bind_err_simps


section \<open>Facts about the traversals\<close>

subsection \<open>The loop over the children\<close>

lemma for_each_result:
  assumes "P s"
    and "\<And>x t t'. x \<in> set xs \<Longrightarrow> P t \<Longrightarrow> f x t = Some (Inr t') \<Longrightarrow> P t'"
  shows "(\<exists>s'. for_each f xs s = Some (Inr s') \<and> P s') \<or>
         (\<exists>x \<in> set xs. \<exists>t. P t \<and> for_each f xs s = f x t \<and> (\<forall>t'. f x t \<noteq> Some (Inr t')))"
  using assms
proof (induction xs arbitrary: s)
  case Nil
  then show ?case by simp
next
  case (Cons x xs)
  show ?case
  proof (cases "f x s")
    case None
    then show ?thesis using Cons.prems(1) by auto
  next
    case (Some r)
    show ?thesis
    proof (cases r)
      case (Inl e)
      then show ?thesis using Some Cons.prems(1) by auto
    next
      case (Inr s1)
      with Some Cons.prems have "P s1" by auto
      from Cons.IH [OF this] Cons.prems(2)
      have "(\<exists>s'. for_each f xs s1 = Some (Inr s') \<and> P s') \<or>
         (\<exists>x \<in> set xs. \<exists>t. P t \<and> for_each f xs s1 = f x t \<and> (\<forall>t'. f x t \<noteq> Some (Inr t')))"
        by auto
      then show ?thesis using Some Inr by auto
    qed
  qed
qed

lemma for_each_Inr:
  assumes "for_each f xs s = Some (Inr s')" and "P s"
    and "\<And>x t t'. x \<in> set xs \<Longrightarrow> P t \<Longrightarrow> f x t = Some (Inr t') \<Longrightarrow> P t'"
  shows "P s'"
proof -
  have "(\<exists>s'. for_each f xs s = Some (Inr s') \<and> P s') \<or>
         (\<exists>x \<in> set xs. \<exists>t. P t \<and> for_each f xs s = f x t \<and> (\<forall>t'. f x t \<noteq> Some (Inr t')))"
  proof (rule for_each_result [where P = P and f = f])
    show "P s" by fact
  next
    fix x t t' assume "x \<in> set xs" "P t" "f x t = Some (Inr t')"
    then show "P t'" using assms(3) by blast
  qed
  then consider (ok) s1 where "for_each f xs s = Some (Inr s1)" "P s1"
    | (bad) x t where "for_each f xs s = f x t" "\<forall>t'. f x t \<noteq> Some (Inr t')"
    by blast
  then show ?thesis
  proof cases
    case ok
    with assms(1) show ?thesis by simp
  next
    case bad
    from bad(1) assms(1) have "f x t = Some (Inr s')" by simp
    with bad(2) show ?thesis by blast
  qed
qed

lemma for_each_fails:
  assumes "for_each f xs s = r" and "\<forall>t'. r \<noteq> Some (Inr t')" and "P s"
    and "\<And>x t t'. x \<in> set xs \<Longrightarrow> P t \<Longrightarrow> f x t = Some (Inr t') \<Longrightarrow> P t'"
  shows "\<exists>x \<in> set xs. \<exists>t. P t \<and> f x t = r"
proof -
  have "(\<exists>s'. for_each f xs s = Some (Inr s') \<and> P s') \<or>
         (\<exists>x \<in> set xs. \<exists>t. P t \<and> for_each f xs s = f x t \<and> (\<forall>t'. f x t \<noteq> Some (Inr t')))"
  proof (rule for_each_result [where P = P and f = f])
    show "P s" by fact
  next
    fix x t t' assume "x \<in> set xs" "P t" "f x t = Some (Inr t')"
    then show "P t'" using assms(4) by blast
  qed
  then consider (ok) s1 where "for_each f xs s = Some (Inr s1)"
    | (bad) x t where "x \<in> set xs" "P t" "for_each f xs s = f x t"
    by blast
  then show ?thesis
  proof cases
    case ok
    with assms(1,2) show ?thesis by metis
  next
    case bad
    from bad(3) assms(1) have "f x t = r" by simp
    with bad(1,2) show ?thesis by blast
  qed
qed

subsection \<open>What \<open>build_topo\<close> emits, and that it returns\<close>

lemma free_slots_mark:
  assumes "vis k = 0" and "k < 100"
  shows "Suc (free_slots (vis(k := 1))) = free_slots vis"
proof -
  have eq: "{i. i < 100 \<and> (vis(k := 1)) i = 0} = {i. i < 100 \<and> vis i = 0} - {k}"
    by auto
  have fin: "finite {i. i < (100::nat) \<and> vis i = 0}" by simp
  have "k \<in> {i. i < 100 \<and> vis i = 0}" using assms by simp
  then have "card ({i. i < 100 \<and> vis i = 0} - {k}) = card {i. i < 100 \<and> vis i = 0} - 1"
    and "card {i. i < 100 \<and> vis i = 0} > 0"
    using fin by (auto simp: card_gt_0_iff)
  then show ?thesis unfolding free_slots_def eq by simp
qed

lemma free_slots_init: "free_slots (\<lambda>i. 0) = 100"
  by (simp add: free_slots_def)

lemma reach_child:
  assumes "h v = Some node" and "c \<in> set (children node)" and "p \<in> reach h c"
  shows "p \<in> reach h v"
  using assms(3)
proof (induction rule: reach.induct)
  case root
  then show ?case using assms(1,2) reach.root reach.step by blast
next
  case (step p node' c')
  then show ?case using reach.step by blast
qed

lemma emitted_refl: "emitted h R s s"
  by (simp add: emitted_def)

lemma emitted_trans:
  "emitted h R s t \<Longrightarrow> emitted h R' t u \<Longrightarrow> R \<subseteq> Q \<Longrightarrow> R' \<subseteq> Q \<Longrightarrow> emitted h Q s u"
  unfolding emitted_def by (elim conjE exE) (rule conjI, rule_tac x = "ys @ ysa" in exI, auto)

lemma build_topo_emitted:
  "build_topo n h v s = Some (Inr s') \<Longrightarrow> emitted h (reach h v) s s'"
proof (induction n arbitrary: v s s')
  case 0
  then show ?case by simp
next
  case (Suc n)
  show ?case
  proof (cases "snd s (v mod 100) \<noteq> 0")
    case True
    with Suc.prems show ?thesis by (simp add: emitted_refl)
  next
    case False
    then have unv: "snd s (v mod 100) = 0" by simp
    from Suc.prems unv obtain node where node: "h v = Some node"
      by (auto split: option.splits)
    let ?s1 = "(fst s, (snd s)(v mod 100 := 1))"
    from Suc.prems unv node obtain t where
      loop: "for_each (build_topo n h) (children node) ?s1 = Some (Inr t)"
      and s': "s' = (fst t @ [v], snd t)" and len: "length (fst t) < 100"
      by (auto split: option.splits sum.splits if_splits)
    have "emitted h (reach h v) ?s1 t"
    proof (rule for_each_Inr [OF loop, where P = "\<lambda>t. emitted h (reach h v) ?s1 t"])
      show "emitted h (reach h v) ?s1 ?s1" by (rule emitted_refl)
    next
      fix x t t'
      assume x: "x \<in> set (children node)" and t: "emitted h (reach h v) ?s1 t"
        and "build_topo n h x t = Some (Inr t')"
      then have "emitted h (reach h x) t t'" using Suc.IH by blast
      moreover have "reach h x \<subseteq> reach h v" using reach_child node x by blast
      ultimately show "emitted h (reach h v) ?s1 t'"
        using t emitted_trans by blast
    qed
    then obtain ys where ys: "fst t = fst s @ ys" "set ys \<subseteq> reach h v \<inter> dom h"
      "length ys + free_slots (snd t) = free_slots ((snd s)(v mod 100 := 1))"
      and mono: "\<forall>i. ((snd s)(v mod 100 := 1)) i \<noteq> 0 \<longrightarrow> snd t i \<noteq> 0"
      unfolding emitted_def by auto
    have "Suc (free_slots ((snd s)(v mod 100 := 1))) = free_slots (snd s)"
      using free_slots_mark [of "snd s" "v mod 100"] unv by simp
    with ys have "length (ys @ [v]) + free_slots (snd t) = free_slots (snd s)" by simp
    moreover have "set (ys @ [v]) \<subseteq> reach h v \<inter> dom h"
      using ys(2) node reach.root by auto
    moreover have "fst s' = fst s @ (ys @ [v])" using s' ys(1) by simp
    moreover have "\<forall>i. snd s i \<noteq> 0 \<longrightarrow> snd s' i \<noteq> 0" using mono s' by auto
    ultimately show ?thesis unfolding emitted_def using s' by (metis snd_conv)
  qed
qed

lemma emitted_free: "emitted h R s t \<Longrightarrow> free_slots (snd t) \<le> free_slots (snd s)"
  unfolding emitted_def by auto

lemma emitted_balance:
  "emitted h R s t \<Longrightarrow> length (fst t) + free_slots (snd t) = length (fst s) + free_slots (snd s)"
  unfolding emitted_def by auto

lemma build_topo_returns:
  "free_slots (snd s) < n \<Longrightarrow> build_topo n h v s \<noteq> None"
proof (induction n arbitrary: v s)
  case 0
  then show ?case by simp
next
  case (Suc n)
  show ?case
  proof (cases "snd s (v mod 100) = 0 \<and> h v \<noteq> None")
    case False
    then show ?thesis by (auto split: option.splits)
  next
    case True
    then obtain node where unv: "snd s (v mod 100) = 0" and node: "h v = Some node" by auto
    let ?s1 = "(fst s, (snd s)(v mod 100 := 1))"
    have s1: "free_slots (snd ?s1) < n"
      using free_slots_mark [of "snd s" "v mod 100"] unv Suc.prems by simp
    have "for_each (build_topo n h) (children node) ?s1 \<noteq> None"
    proof
      assume none: "for_each (build_topo n h) (children node) ?s1 = None"
      have "\<exists>x \<in> set (children node). \<exists>t. free_slots (snd t) < n \<and> build_topo n h x t = None"
      proof (rule for_each_fails [OF none, where P = "\<lambda>t. free_slots (snd t) < n"])
        show "\<forall>t'. None \<noteq> Some (Inr t')" by simp
        show "free_slots (snd ?s1) < n" by (rule s1)
      next
        fix x t t'
        assume "free_slots (snd t) < n" "build_topo n h x t = Some (Inr t')"
        then show "free_slots (snd t') < n"
          using emitted_free [OF build_topo_emitted] by fastforce
      qed
      then show False using Suc.IH by blast
    qed
    then show ?thesis using unv node by (auto split: option.splits sum.splits)
  qed
qed

lemma build_topo_no_error:
  assumes "closed_heap h"
  shows "v \<in> dom h \<Longrightarrow> length (fst s) + free_slots (snd s) \<le> 100 \<Longrightarrow>
         build_topo n h v s \<noteq> Some (Inl e)"
proof (induction n arbitrary: v s e)
  case 0
  then show ?case by simp
next
  case (Suc n)
  show ?case
  proof (cases "snd s (v mod 100) = 0")
    case False
    then show ?thesis by simp
  next
    case unv: True
    from Suc.prems(1) obtain node where node: "h v = Some node" by auto
    let ?s1 = "(fst s, (snd s)(v mod 100 := 1))"
    let ?P = "\<lambda>t. length (fst t) + free_slots (snd t) \<le> 99"
    have s1: "?P ?s1"
      using free_slots_mark [of "snd s" "v mod 100"] unv Suc.prems(2) by simp
    have kids: "set (children node) \<subseteq> dom h"
      using assms node unfolding closed_heap_def by blast
    have step: "?P t'" if "?P t" "build_topo n h x t = Some (Inr t')" for x t t'
      using that emitted_balance [OF build_topo_emitted] by fastforce
    have no_err: "for_each (build_topo n h) (children node) ?s1 \<noteq> Some (Inl e')" for e'
    proof
      assume err: "for_each (build_topo n h) (children node) ?s1 = Some (Inl e')"
      have "\<exists>x \<in> set (children node). \<exists>t. ?P t \<and> build_topo n h x t = Some (Inl e')"
      proof (rule for_each_fails [OF err, where P = ?P])
        show "\<forall>t'. Some (Inl e') \<noteq> Some (Inr t')" by simp
        show "?P ?s1" by (rule s1)
      next
        fix x t t'
        assume "?P t" "build_topo n h x t = Some (Inr t')"
        then show "?P t'" by (rule step)
      qed
      then obtain x t where "x \<in> set (children node)" "?P t" "build_topo n h x t = Some (Inl e')"
        by blast
      moreover from this kids have "build_topo n h x t \<noteq> Some (Inl e')"
        by (intro Suc.IH) auto
      ultimately show False by blast
    qed
    have len: "length (fst t) < 100"
      if "for_each (build_topo n h) (children node) ?s1 = Some (Inr t)" for t
    proof -
      have "?P t"
      proof (rule for_each_Inr [OF that, where P = ?P])
        show "?P ?s1" by (rule s1)
      next
        fix x t t'
        assume "?P t" "build_topo n h x t = Some (Inr t')"
        then show "?P t'" by (rule step)
      qed
      then show ?thesis by simp
    qed
    show ?thesis using unv node no_err len by (auto split: option.splits sum.splits)
  qed
qed

subsection \<open>Shape, and what the rules write\<close>

lemma same_shape_refl: "same_shape h h"
  by (simp add: same_shape_def)

lemma same_shape_sym: "same_shape h k \<Longrightarrow> same_shape k h"
  by (simp add: same_shape_def)

lemma same_shape_trans: "same_shape h k \<Longrightarrow> same_shape k m \<Longrightarrow> same_shape h m"
  by (simp add: same_shape_def)

lemma erase_eq_iff:
  "erase a = erase b \<longleftrightarrow> data a = data b \<and> children a = children b \<and> backward_fn a = backward_fn b"
  by (cases a, cases b) (auto simp: erase_def)

lemma same_shape_lookup:
  assumes "same_shape h k" and "h p = Some node"
  shows "\<exists>node'. k p = Some node' \<and> data node' = data node \<and> children node' = children node \<and>
           backward_fn node' = backward_fn node"
proof -
  from assms have "map_option erase (k p) = Some (erase node)"
    by (simp add: same_shape_def)
  then obtain node' where "k p = Some node'" "erase node' = erase node" by auto
  then show ?thesis by (auto simp: erase_eq_iff)
qed

lemma same_shape_None:
  assumes "same_shape h k" and "h p = None"
  shows "k p = None"
proof -
  from assms(1) have "map_option erase (k p) = map_option erase (h p)"
    by (simp add: same_shape_def)
  with assms(2) show ?thesis by simp
qed

lemma same_shape_dom:
  assumes "same_shape h k"
  shows "dom k = dom h"
proof -
  have "k p = None \<longleftrightarrow> h p = None" for p
    using same_shape_None [OF assms] same_shape_None [OF same_shape_sym [OF assms]] by blast
  then show ?thesis by (auto simp: dom_def)
qed

lemma same_shape_upd:
  "h p = Some node \<Longrightarrow> same_shape h (h(p \<mapsto> node\<lparr>grad := x\<rparr>))"
  by (simp add: same_shape_def erase_def)

lemma add_grad_Inr:
  "add_grad k p x = Inr k' \<Longrightarrow> \<exists>node. k p = Some node \<and> k' = k(p \<mapsto> node\<lparr>grad := grad node + x\<rparr>)"
  by (auto simp: add_grad_def deref_def bind_err_def split: option.splits)

lemma add_grad_frame:
  assumes "add_grad k p x = Inr k'"
  shows "same_shape k k' \<and> (\<forall>q. q \<noteq> p \<longrightarrow> k' q = k q)"
  using add_grad_Inr [OF assms] same_shape_upd by auto

lemma deref_Inr: "deref k p = Inr node \<longleftrightarrow> k p = Some node"
  by (auto simp: deref_def split: option.splits)

lemma bind_err_Inr: "bind_err r f = Inr y \<longleftrightarrow> (\<exists>x. r = Inr x \<and> f x = Inr y)"
  by (cases r) (auto simp: bind_err_def)

lemma operands_shape:
  assumes "same_shape h k"
  shows "operands k n = operands h n"
proof (cases "h n")
  case None
  with same_shape_None [OF assms] show ?thesis by (simp add: operands_def)
next
  case (Some node)
  with same_shape_lookup [OF assms Some] show ?thesis by (auto simp: operands_def)
qed

lemma two_children:
  "\<not> length cs < 2 \<Longrightarrow> cs ! 0 \<in> set cs \<and> cs ! Suc 0 \<in> set cs"
  by (cases cs; cases "tl cs") auto

lemma one_child: "\<not> length cs < 1 \<Longrightarrow> cs ! 0 \<in> set cs"
  by (cases cs) auto

lemma call_backward_frame:
  assumes "call_backward f k out = Inr k'"
  shows "same_shape k k' \<and> (\<forall>q. k' q \<noteq> k q \<longrightarrow> q \<in> operands k out)"
proof (cases f)
  case Backward_add
  with assms obtain vo where vo: "k out = Some vo"
    and r: "(if length (children vo) < 2 then Inr k
       else bind_err (add_grad k (children vo ! 0) (grad vo)) (\<lambda>h1.
         bind_err (deref h1 out) (\<lambda>o1. add_grad h1 (children o1 ! 1) (grad o1)))) = Inr k'"
    by (auto simp: backward_add_def bind_err_Inr deref_Inr)
  show ?thesis
  proof (cases "length (children vo) < 2")
    case True
    with r show ?thesis by (simp add: same_shape_refl)
  next
    case False
    with r obtain k1 o1 where k1: "add_grad k (children vo ! 0) (grad vo) = Inr k1"
      and o1: "k1 out = Some o1" and k': "add_grad k1 (children o1 ! 1) (grad o1) = Inr k'"
      by (auto simp: bind_err_Inr deref_Inr)
    from add_grad_frame [OF k1] have s1: "same_shape k k1"
      and f1: "\<forall>q. q \<noteq> children vo ! 0 \<longrightarrow> k1 q = k q" by auto
    from same_shape_lookup [OF s1 vo] o1 have c: "children o1 = children vo" by auto
    from add_grad_frame [OF k'] have s2: "same_shape k1 k'"
      and f2: "\<forall>q. q \<noteq> children vo ! 1 \<longrightarrow> k' q = k1 q" using c by auto
    from two_children [OF False] have "children vo ! 0 \<in> operands k out" "children vo ! 1 \<in> operands k out"
      by (simp_all add: operands_def vo)
    with f1 f2 s1 s2 show ?thesis using same_shape_trans by metis
  qed
next
  case Backward_mul
  with assms obtain vo where vo: "k out = Some vo"
    and r: "(if length (children vo) < 2 then Inr k
       else bind_err (deref k (children vo ! 1)) (\<lambda>c1.
         bind_err (add_grad k (children vo ! 0) (data c1 * grad vo)) (\<lambda>h1.
         bind_err (deref h1 out) (\<lambda>o1.
         bind_err (deref h1 (children o1 ! 0)) (\<lambda>c0.
           add_grad h1 (children o1 ! 1) (data c0 * grad o1)))))) = Inr k'"
    by (auto simp: backward_mul_def bind_err_Inr deref_Inr)
  show ?thesis
  proof (cases "length (children vo) < 2")
    case True
    with r show ?thesis by (simp add: same_shape_refl)
  next
    case False
    with r obtain k1 o1 x y where k1: "add_grad k (children vo ! 0) x = Inr k1"
      and o1: "k1 out = Some o1" and k': "add_grad k1 (children o1 ! 1) y = Inr k'"
      by (auto simp: bind_err_Inr deref_Inr)
    from add_grad_frame [OF k1] have s1: "same_shape k k1"
      and f1: "\<forall>q. q \<noteq> children vo ! 0 \<longrightarrow> k1 q = k q" by auto
    from same_shape_lookup [OF s1 vo] o1 have c: "children o1 = children vo" by auto
    from add_grad_frame [OF k'] have s2: "same_shape k1 k'"
      and f2: "\<forall>q. q \<noteq> children vo ! 1 \<longrightarrow> k' q = k1 q" using c by auto
    from two_children [OF False] have "children vo ! 0 \<in> operands k out" "children vo ! 1 \<in> operands k out"
      by (simp_all add: operands_def vo)
    with f1 f2 s1 s2 show ?thesis using same_shape_trans by metis
  qed
next
  case Backward_pow
  with assms obtain vo where vo: "k out = Some vo"
    and r: "(if length (children vo) < 2 then Inr k
       else bind_err (deref k (children vo ! 0)) (\<lambda>b.
         bind_err (deref k (children vo ! 1)) (\<lambda>e.
           case c_pow (data b) (data e - 1) of
             None \<Rightarrow> Inl NotFinite
           | Some w \<Rightarrow> add_grad k (children vo ! 0) ((data e * w) * grad vo)))) = Inr k'"
    by (auto simp: backward_pow_def bind_err_Inr deref_Inr)
  show ?thesis
  proof (cases "length (children vo) < 2")
    case True
    with r show ?thesis by (simp add: same_shape_refl)
  next
    case False
    with r obtain x where k1: "add_grad k (children vo ! 0) x = Inr k'"
      by (auto simp: bind_err_Inr deref_Inr split: option.splits)
    from two_children [OF False] have "children vo ! 0 \<in> operands k out"
      by (simp_all add: operands_def vo)
    with add_grad_frame [OF k1] show ?thesis by metis
  qed
next
  case Backward_exp
  with assms obtain vo where vo: "k out = Some vo"
    and r: "(if length (children vo) < 1 then Inr k
       else add_grad k (children vo ! 0) (data vo * grad vo)) = Inr k'"
    by (auto simp: backward_exp_def bind_err_Inr deref_Inr)
  show ?thesis
  proof (cases "length (children vo) < 1")
    case True
    with r show ?thesis by (simp add: same_shape_refl)
  next
    case False
    with r have k1: "add_grad k (children vo ! 0) (data vo * grad vo) = Inr k'" by simp
    from one_child [OF False] have "children vo ! 0 \<in> operands k out"
      by (simp_all add: operands_def vo)
    with add_grad_frame [OF k1] show ?thesis by metis
  qed
next
  case Backward_relu
  with assms obtain vo where vo: "k out = Some vo"
    and r: "(if length (children vo) < 1 then Inr k
       else add_grad k (children vo ! 0) ((if data vo > 0 then 1 else 0) * grad vo)) = Inr k'"
    by (auto simp: backward_relu_def bind_err_Inr deref_Inr)
  show ?thesis
  proof (cases "length (children vo) < 1")
    case True
    with r show ?thesis by (simp add: same_shape_refl)
  next
    case False
    with r have k1: "add_grad k (children vo ! 0) ((if data vo > 0 then 1 else 0) * grad vo) = Inr k'"
      by simp
    from one_child [OF False] have "children vo ! 0 \<in> operands k out"
      by (simp_all add: operands_def vo)
    with add_grad_frame [OF k1] show ?thesis by metis
  qed
qed

lemma backward_loop_frame:
  "backward_loop k vs = Inr k' \<Longrightarrow>
     same_shape k k' \<and> (\<forall>q. k' q \<noteq> k q \<longrightarrow> (\<exists>n \<in> set vs. q \<in> operands k n))"
proof (induction vs arbitrary: k)
  case Nil
  then show ?case by (simp add: same_shape_refl)
next
  case (Cons v vs)
  from Cons.prems obtain node where node: "k v = Some node"
    and r: "(case backward_fn node of None \<Rightarrow> backward_loop k vs
       | Some f \<Rightarrow> bind_err (call_backward f k v) (\<lambda>h'. backward_loop h' vs)) = Inr k'"
    by (auto simp: bind_err_Inr deref_Inr)
  show ?case
  proof (cases "backward_fn node")
    case None
    with r have "backward_loop k vs = Inr k'" by simp
    from Cons.IH [OF this] show ?thesis by auto
  next
    case (Some f)
    with r obtain k1 where k1: "call_backward f k v = Inr k1" and l: "backward_loop k1 vs = Inr k'"
      by (auto simp: bind_err_Inr)
    from call_backward_frame [OF k1] have s1: "same_shape k k1"
      and f1: "\<forall>q. k1 q \<noteq> k q \<longrightarrow> q \<in> operands k v" by auto
    from Cons.IH [OF l] have s2: "same_shape k1 k'"
      and f2: "\<forall>q. k' q \<noteq> k1 q \<longrightarrow> (\<exists>n \<in> set vs. q \<in> operands k1 n)" by auto
    have "\<exists>n \<in> set (v # vs). q \<in> operands k n" if "k' q \<noteq> k q" for q
    proof (cases "k' q = k1 q")
      case True
      with that f1 show ?thesis by auto
    next
      case False
      with f2 obtain n where "n \<in> set vs" "q \<in> operands k1 n" by blast
      then show ?thesis using operands_shape [OF s1] by auto
    qed
    with s1 s2 show ?thesis using same_shape_trans by blast
  qed
qed

lemma backward_Inr:
  assumes "backward fuel h v = Some (Inr h')"
  obtains s node where "build_topo fuel h v ([], \<lambda>i. 0) = Some (Inr s)"
    and "h v = Some node"
    and "backward_loop (h(v \<mapsto> node\<lparr>grad := 1\<rparr>)) (rev (fst s)) = Inr h'"
  using assms unfolding backward_def set_grad_def
  by (auto simp: bind_err_Inr deref_Inr split: option.splits sum.splits)

lemma operands_reach: "n \<in> reach h v \<Longrightarrow> q \<in> operands h n \<Longrightarrow> q \<in> reach h v"
  unfolding operands_def by (auto split: option.splits intro: reach.step)

subsection \<open>Gradients found before the call are added to\<close>

lemma for_each_cong:
  "(\<And>x t. x \<in> set xs \<Longrightarrow> f x t = g x t) \<Longrightarrow> for_each f xs s = for_each g xs s"
  by (induction xs arbitrary: s) (auto split: option.splits sum.splits)

lemma build_topo_shape:
  assumes "same_shape h k"
  shows "build_topo n k v s = build_topo n h v s"
proof (induction n arbitrary: v s)
  case 0
  then show ?case by simp
next
  case (Suc n)
  have loop: "for_each (build_topo n k) cs t = for_each (build_topo n h) cs t" for cs t
    by (rule for_each_cong) (rule Suc.IH)
  show ?case
  proof (cases "h v")
    case None
    with same_shape_None [OF assms] show ?thesis by simp
  next
    case (Some node)
    with same_shape_lookup [OF assms Some] loop show ?thesis by auto
  qed
qed

lemma erase_abs: "erase = (\<lambda>node. node\<lparr>grad := 0\<rparr>)"
  by (rule ext) (simp add: erase_def)

lemma shift_shape: "same_shape h (shift h d)"
  by (simp add: same_shape_def shift_def erase_abs option.map_comp o_def)

lemma shift_apply:
  "shift k d p = map_option (\<lambda>node. node\<lparr>grad := grad node + d p\<rparr>) (k p)"
  by (simp add: shift_def)

lemma shift_upd:
  "shift (k(p \<mapsto> node)) d = (shift k d)(p \<mapsto> node\<lparr>grad := grad node + d p\<rparr>)"
  by (auto simp: shift_def)

lemma add_grad_shift:
  "add_grad (shift k d) p x = map_sum id (\<lambda>k'. shift k' d) (add_grad k p x)"
  by (cases "k p") (auto simp: add_grad_def deref_def bind_err_simps shift_apply shift_upd algebra_simps)

lemma deref_shift:
  "deref (shift k d) p = map_sum id (\<lambda>node. node\<lparr>grad := grad node + d p\<rparr>) (deref k p)"
  by (cases "k p") (auto simp: deref_def shift_apply)

lemma bind_err_map_sum:
  "bind_err (map_sum id g r) f = bind_err r (\<lambda>x. f (g x))"
  by (cases r) (simp_all add: bind_err_simps)

lemma map_sum_bind_err:
  "map_sum id g (bind_err r f) = bind_err r (\<lambda>x. map_sum id g (f x))"
  by (cases r) (simp_all add: bind_err_simps)

lemma call_backward_shift:
  assumes "d out = 0"
  shows "call_backward f (shift k d) out = map_sum id (\<lambda>k'. shift k' d) (call_backward f k out)"
proof (cases "k out")
  case None
  then show ?thesis
    by (cases f) (simp_all add: rule_defs shift_apply)
next
  case (Some vo)
  then have d: "deref (shift k d) out = Inr vo" "deref k out = Inr vo"
    using assms by (simp_all add: deref_def shift_apply)
  have d1: "deref (shift k1 d) out = deref k1 out" for k1
    using assms by (cases "k1 out") (simp_all add: deref_def shift_apply)
  note s = add_grad_shift bind_err_map_sum map_sum_bind_err bind_err_simps deref_shift
  show ?thesis
  proof (cases f)
    case Backward_add
    show ?thesis unfolding Backward_add call_backward.simps backward_add_def d
      by (cases "length (children vo) < 2") (simp_all add: s d1 assms)
  next
    case Backward_mul
    show ?thesis unfolding Backward_mul call_backward.simps backward_mul_def d
      by (cases "length (children vo) < 2") (simp_all add: s d1 assms)
  next
    case Backward_pow
    have "backward_pow (shift k d) out = map_sum id (\<lambda>k'. shift k' d) (backward_pow k out)"
    proof (cases "length (children vo) < 2")
      case True
      then show ?thesis unfolding backward_pow_def d by (simp add: s)
    next
      case False
      show ?thesis
      proof (cases "k (children vo ! 0)")
        case None
        then show ?thesis using False unfolding backward_pow_def d by (simp add: s deref_def shift_apply)
      next
        case b: (Some b)
        show ?thesis
        proof (cases "k (children vo ! 1)")
          case None
          then show ?thesis using False b unfolding backward_pow_def d
            by (simp add: s deref_def shift_apply)
        next
          case e: (Some e)
          show ?thesis using False b e unfolding backward_pow_def d
            by (cases "c_pow (data b) (data e - 1)") (simp_all add: s deref_def shift_apply)
        qed
      qed
    qed
    then show ?thesis by (simp add: Backward_pow)
  next
    case Backward_exp
    show ?thesis unfolding Backward_exp call_backward.simps backward_exp_def d
      by (cases "length (children vo) < 1") (simp_all add: s assms)
  next
    case Backward_relu
    show ?thesis unfolding Backward_relu call_backward.simps backward_relu_def d
      by (cases "length (children vo) < 1") (simp_all add: s assms)
  qed
qed

lemma ruled_shape:
  assumes "same_shape h k"
  shows "ruled k = ruled h"
proof -
  have "p \<in> ruled b" if "same_shape a b" "p \<in> ruled a" for a b p
    using that same_shape_lookup [OF that(1)] unfolding ruled_def by fastforce
  then show ?thesis using assms same_shape_sym by blast
qed

lemma backward_loop_shift:
  assumes "\<forall>n \<in> ruled k. d n = 0"
  shows "backward_loop (shift k d) vs = map_sum id (\<lambda>k'. shift k' d) (backward_loop k vs)"
  using assms
proof (induction vs arbitrary: k)
  case Nil
  then show ?case by simp
next
  case (Cons v vs)
  show ?case
  proof (cases "k v")
    case None
    then show ?thesis by (simp add: deref_def shift_apply bind_err_simps)
  next
    case (Some node)
    then have look: "deref (shift k d) v = Inr (node\<lparr>grad := grad node + d v\<rparr>)"
      "deref k v = Inr node"
      by (simp_all add: deref_def shift_apply)
    show ?thesis
    proof (cases "backward_fn node")
      case None
      with Cons.IH [OF Cons.prems] show ?thesis
        by (simp add: look bind_err_simps)
    next
      case f: (Some f)
      with Some have "v \<in> ruled k" by (simp add: ruled_def)
      with Cons.prems have dv: "d v = 0" by blast
      show ?thesis
      proof (cases "call_backward f k v")
        case (Inl e)
        with f show ?thesis
          by (simp add: look bind_err_simps call_backward_shift [of d v] dv)
      next
        case (Inr k1)
        from call_backward_frame [OF Inr] have "same_shape k k1" by simp
        with Cons.prems have "\<forall>n \<in> ruled k1. d n = 0" using ruled_shape by blast
        from Cons.IH [OF this] f Inr show ?thesis
          by (simp add: look bind_err_simps call_backward_shift [of d v] dv)
      qed
    qed
  qed
qed

lemma backward_shift:
  assumes "d r = 0" and "\<forall>n \<in> ruled h. d n = 0"
  shows "backward fuel (shift h d) r =
         map_option (map_sum id (\<lambda>k. shift k d)) (backward fuel h r)"
proof (cases "h r")
  case None
  then show ?thesis
    unfolding backward_def build_topo_shape [OF shift_shape]
    by (auto simp: set_grad_def deref_def shift_apply bind_err_simps split: option.splits sum.splits)
next
  case (Some node)
  let ?h0 = "h(r \<mapsto> node\<lparr>grad := 1\<rparr>)"
  have a: "set_grad h r 1 = Inr ?h0"
    using Some by (simp add: set_grad_def deref_def bind_err_simps)
  have b: "set_grad (shift h d) r 1 = Inr (shift ?h0 d)"
    using Some assms(1) by (simp add: set_grad_def deref_def bind_err_simps shift_apply shift_upd)
  have "same_shape h ?h0" using Some by (rule same_shape_upd)
  with assms(2) have "\<forall>n \<in> ruled ?h0. d n = 0" using ruled_shape by blast
  from backward_loop_shift [OF this] show ?thesis
    unfolding backward_def build_topo_shape [OF shift_shape] a b
    by (auto simp: bind_err_simps split: option.splits sum.splits)
qed

lemma backward_root_stale:
  assumes "h r = Some node"
  shows "backward fuel (h(r \<mapsto> node\<lparr>grad := x\<rparr>)) r = backward fuel h r"
proof -
  have a: "same_shape h (h(r \<mapsto> node\<lparr>grad := x\<rparr>))"
    using assms by (rule same_shape_upd)
  have b: "set_grad (h(r \<mapsto> node\<lparr>grad := x\<rparr>)) r 1 = set_grad h r 1"
    using assms by (simp add: set_grad_def deref_def bind_err_simps)
  show ?thesis
    unfolding backward_def build_topo_shape [OF a] b by (rule refl)
qed

subsection \<open>What \<open>backward\<close> writes\<close>

lemma backward_changes:
  assumes "backward fuel h v = Some (Inr h')"
  shows "\<exists>node. h v = Some node \<and> same_shape h h' \<and>
     (\<forall>q. h' q \<noteq> (h(v \<mapsto> node\<lparr>grad := 1\<rparr>)) q \<longrightarrow> (\<exists>n \<in> reach h v. q \<in> operands h n))"
proof -
  from assms obtain s node where topo: "build_topo fuel h v ([], \<lambda>i. 0) = Some (Inr s)"
    and node: "h v = Some node"
    and loop: "backward_loop (h(v \<mapsto> node\<lparr>grad := 1\<rparr>)) (rev (fst s)) = Inr h'"
    by (rule backward_Inr)
  let ?h0 = "h(v \<mapsto> node\<lparr>grad := 1\<rparr>)"
  have s0: "same_shape h ?h0" using node by (rule same_shape_upd)
  from build_topo_emitted [OF topo] have sub: "set (fst s) \<subseteq> reach h v"
    by (auto simp: emitted_def)
  from backward_loop_frame [OF loop] have s1: "same_shape ?h0 h'"
    and f: "\<forall>q. h' q \<noteq> ?h0 q \<longrightarrow> (\<exists>n \<in> set (rev (fst s)). q \<in> operands ?h0 n)" by auto
  have "\<exists>n \<in> reach h v. q \<in> operands h n" if "h' q \<noteq> ?h0 q" for q
  proof -
    from that f obtain n where "n \<in> set (fst s)" "q \<in> operands ?h0 n" by auto
    with sub operands_shape [OF s0] show ?thesis by auto
  qed
  with s0 s1 node show ?thesis using same_shape_trans by blast
qed

lemma backward_frame:
  assumes "backward fuel h v = Some (Inr h')"
  shows "same_shape h h' \<and> (\<forall>q. q \<notin> reach h v \<longrightarrow> h' q = h q)"
proof -
  from backward_changes [OF assms] obtain node where node: "h v = Some node"
    and shape: "same_shape h h'"
    and ch: "\<forall>q. h' q \<noteq> (h(v \<mapsto> node\<lparr>grad := 1\<rparr>)) q \<longrightarrow> (\<exists>n \<in> reach h v. q \<in> operands h n)"
    by blast
  have "h' q = h q" if "q \<notin> reach h v" for q
  proof (rule ccontr)
    assume "h' q \<noteq> h q"
    moreover from that have "q \<noteq> v" using reach.root by blast
    ultimately have "h' q \<noteq> (h(v \<mapsto> node\<lparr>grad := 1\<rparr>)) q" by simp
    with ch that show False using operands_reach by blast
  qed
  with shape show ?thesis by blast
qed

subsection \<open>\<open>zero_grad_graph\<close> on a DAG and on a cycle\<close>

lemma zeroed_refl: "same_shape h (fst s) \<Longrightarrow> zeroed h {} s s"
  by (simp add: zeroed_def)

lemma zeroed_trans:
  assumes "zeroed h R s t" and "zeroed h R' t u"
  shows "zeroed h (R \<union> R') s u"
proof -
  from assms obtain ws ws' where ws: "snd t = snd s @ ws" "set ws = R"
    "snd u = snd t @ ws'" "set ws' = R'"
    unfolding zeroed_def by blast
  then have "snd u = snd s @ (ws @ ws')" "set (ws @ ws') = R \<union> R'" by simp_all
  then have log: "\<exists>ws. snd u = snd s @ ws \<and> set ws = R \<union> R'" by blast
  have keep: "fst u p = fst s p" if "gradient (fst s) p = Some 0" for p
  proof -
    from that assms(1) have "fst t p = fst s p" unfolding zeroed_def by blast
    moreover from this that have "gradient (fst t) p = Some 0" by (simp add: gradient_def)
    with assms(2) have "fst u p = fst t p" unfolding zeroed_def by blast
    ultimately show ?thesis by simp
  qed
  have zero: "gradient (fst u) p = Some 0" if "p \<in> R \<union> R'" for p
  proof (cases "p \<in> R'")
    case True
    with assms(2) show ?thesis unfolding zeroed_def by blast
  next
    case False
    with that have "p \<in> R" by simp
    with assms(1) have t: "gradient (fst t) p = Some 0" unfolding zeroed_def by blast
    with assms(2) have "fst u p = fst t p" unfolding zeroed_def by blast
    with t show ?thesis by (simp add: gradient_def)
  qed
  have out: "fst u p = fst s p" if "p \<notin> R \<union> R'" for p
    using that assms unfolding zeroed_def by auto
  from assms(2) have "same_shape h (fst u)" unfolding zeroed_def by blast
  with log keep zero out show ?thesis unfolding zeroed_def by blast
qed

lemma zero_loop:
  assumes "\<And>c t. c \<in> set cs \<Longrightarrow> same_shape h (fst t) \<Longrightarrow>
             \<exists>t'. f c t = Some (Inr t') \<and> zeroed h (reach h c) t t'"
    and "same_shape h (fst s)"
  shows "\<exists>s'. for_each f cs s = Some (Inr s') \<and> zeroed h (\<Union>c \<in> set cs. reach h c) s s'"
  using assms
proof (induction cs arbitrary: s)
  case Nil
  then show ?case by (simp add: zeroed_refl)
next
  case (Cons c cs)
  from Cons.prems obtain t where t: "f c s = Some (Inr t)" "zeroed h (reach h c) s t"
    by (meson list.set_intros(1))
  then have "same_shape h (fst t)" by (simp add: zeroed_def)
  with Cons.IH [of t] Cons.prems(1) obtain s' where
    s': "for_each f cs t = Some (Inr s')" "zeroed h (\<Union>c \<in> set cs. reach h c) t s'"
    by (meson list.set_intros(2))
  from zeroed_trans [OF t(2) s'(2)] have "zeroed h (\<Union>c \<in> set (c # cs). reach h c) s s'"
    by simp
  with t(1) s'(1) show ?case by simp
qed

lemma reach_unfold:
  assumes "h v = Some node"
  shows "reach h v = insert v (\<Union>c \<in> set (children node). reach h c)"
proof
  show "reach h v \<subseteq> insert v (\<Union>c \<in> set (children node). reach h c)"
  proof
    fix p assume "p \<in> reach h v"
    then show "p \<in> insert v (\<Union>c \<in> set (children node). reach h c)"
    proof (induction rule: reach.induct)
      case root
      then show ?case by simp
    next
      case (step p node' c)
      then show ?case using assms reach.root reach.step by fastforce
    qed
  qed
next
  show "insert v (\<Union>c \<in> set (children node). reach h c) \<subseteq> reach h v"
    using reach.root reach_child [of h v node] assms by auto
qed

lemma closed_nonnull: "closed_heap h \<Longrightarrow> h v = Some node \<Longrightarrow> v \<noteq> 0"
  unfolding closed_heap_def by (metis option.distinct(1))

lemma closed_children:
  "closed_heap h \<Longrightarrow> h v = Some node \<Longrightarrow> c \<in> set (children node) \<Longrightarrow> c \<in> dom h"
  unfolding closed_heap_def by blast

lemma zero_grad_graph_dag:
  assumes "dag h rk"
  shows "same_shape h (fst s) \<Longrightarrow> rk v < n \<Longrightarrow> v \<in> dom h \<Longrightarrow>
     \<exists>s'. zero_grad_graph n v s = Some (Inr s') \<and> zeroed h (reach h v) s s'"
proof (induction n arbitrary: v s)
  case 0
  then show ?case by simp
next
  case (Suc n)
  from assms have closed: "closed_heap h" by (simp add: dag_def)
  from Suc.prems(3) obtain node where node: "h v = Some node" by auto
  with closed have v0: "v \<noteq> 0" by (rule closed_nonnull)
  from same_shape_lookup [OF Suc.prems(1) node] obtain node' where
    node': "fst s v = Some node'" "children node' = children node" by blast
  let ?s1 = "((fst s)(v \<mapsto> node'\<lparr>grad := 0\<rparr>), snd s @ [v])"
  have sh1: "same_shape h (fst ?s1)"
    using same_shape_trans [OF Suc.prems(1) same_shape_upd [of "fst s" v node' 0]] node'(1)
    by simp
  have "\<exists>s'. for_each (zero_grad_graph n) (children node) ?s1 = Some (Inr s') \<and>
          zeroed h (\<Union>c \<in> set (children node). reach h c) ?s1 s'"
  proof (rule zero_loop [OF _ sh1])
    fix c and t :: zero_state
    assume c: "c \<in> set (children node)" and t: "same_shape h (fst t)"
    from assms node c have "rk c < rk v" unfolding dag_def by blast
    with Suc.prems(2) have "rk c < n" by simp
    moreover have "c \<in> dom h" using closed_children [OF closed node c] .
    ultimately show "\<exists>t'. zero_grad_graph n c t = Some (Inr t') \<and> zeroed h (reach h c) t t'"
      using Suc.IH [OF t] by blast
  qed
  then obtain s' where loop: "for_each (zero_grad_graph n) (children node) ?s1 = Some (Inr s')"
    and z: "zeroed h (\<Union>c \<in> set (children node). reach h c) ?s1 s'" by blast
  have run: "zero_grad_graph (Suc n) v s = Some (Inr s')"
    using v0 node' loop by simp
  have "zeroed h {v} s ?s1"
    unfolding zeroed_def using sh1 node'(1)
    by (auto simp: gradient_def)
  from zeroed_trans [OF this z] have "zeroed h (reach h v) s s'"
    unfolding reach_unfold [of h v node, OF node] by simp
  with run show ?case by blast
qed

lemma paths_loop:
  assumes step: "\<And>c t t'. c \<in> set cs \<Longrightarrow> same_shape h (fst t) \<Longrightarrow> f c t = Some (Inr t') \<Longrightarrow>
            same_shape h (fst t') \<and> (\<exists>ws. snd t' = snd t @ ws \<and> (\<forall>p. count_list ws p = g c p))"
    and "for_each f cs s = Some (Inr s')" and "same_shape h (fst s)"
  shows "same_shape h (fst s') \<and>
         (\<exists>ws. snd s' = snd s @ ws \<and> (\<forall>p. count_list ws p = sum_list (map (\<lambda>c. g c p) cs)))"
  using assms
proof (induction cs arbitrary: s)
  case Nil
  then show ?case by simp
next
  case (Cons c cs)
  from Cons.prems(2) obtain t where t: "f c s = Some (Inr t)" "for_each f cs t = Some (Inr s')"
    by (auto split: option.splits sum.splits)
  from Cons.prems(1) [of c s t] t(1) Cons.prems(3) obtain ws where
    ct: "same_shape h (fst t)" "snd t = snd s @ ws" "\<forall>p. count_list ws p = g c p"
    by auto
  have "same_shape h (fst s') \<and>
     (\<exists>ws. snd s' = snd t @ ws \<and> (\<forall>p. count_list ws p = sum_list (map (\<lambda>c. g c p) cs)))"
  proof (rule Cons.IH [OF _ t(2) ct(1)])
    fix c' t1 t1'
    assume "c' \<in> set cs" "same_shape h (fst t1)" "f c' t1 = Some (Inr t1')"
    then show "same_shape h (fst t1') \<and>
       (\<exists>ws. snd t1' = snd t1 @ ws \<and> (\<forall>p. count_list ws p = g c' p))"
      using Cons.prems(1) [of c' t1 t1'] by simp
  qed
  then obtain ws' where "same_shape h (fst s')" "snd s' = snd t @ ws'"
    "\<forall>p. count_list ws' p = sum_list (map (\<lambda>c. g c p) cs)" by blast
  with ct have "same_shape h (fst s')" "snd s' = snd s @ (ws @ ws')"
    "\<forall>p. count_list (ws @ ws') p = sum_list (map (\<lambda>c. g c p) (c # cs))"
    by simp_all
  then show ?case by blast
qed

lemma zero_grad_graph_paths:
  assumes "closed_heap h"
  shows "zero_grad_graph n v s = Some (Inr s') \<Longrightarrow> v \<in> dom h \<Longrightarrow> same_shape h (fst s) \<Longrightarrow>
     same_shape h (fst s') \<and>
     (\<exists>ws. snd s' = snd s @ ws \<and> (\<forall>p. count_list ws p = npaths n h v p))"
proof (induction n arbitrary: v s s')
  case 0
  then show ?case by simp
next
  case (Suc n)
  from Suc.prems(2) obtain node where node: "h v = Some node" by auto
  with assms have v0: "v \<noteq> 0" by (rule closed_nonnull)
  from same_shape_lookup [OF Suc.prems(3) node] obtain node' where
    node': "fst s v = Some node'" "children node' = children node" by blast
  let ?s1 = "((fst s)(v \<mapsto> node'\<lparr>grad := 0\<rparr>), snd s @ [v])"
  have sh1: "same_shape h (fst ?s1)"
    using same_shape_trans [OF Suc.prems(3) same_shape_upd [of "fst s" v node' 0]] node'(1)
    by simp
  from Suc.prems(1) v0 node' have loop:
    "for_each (zero_grad_graph n) (children node) ?s1 = Some (Inr s')" by simp
  have "same_shape h (fst s') \<and>
     (\<exists>ws. snd s' = snd ?s1 @ ws \<and>
        (\<forall>p. count_list ws p = sum_list (map (\<lambda>c. npaths n h c p) (children node))))"
  proof (rule paths_loop [OF _ loop sh1])
    fix c and t t' :: zero_state
    assume "c \<in> set (children node)" "same_shape h (fst t)" "zero_grad_graph n c t = Some (Inr t')"
    then show "same_shape h (fst t') \<and>
       (\<exists>ws. snd t' = snd t @ ws \<and> (\<forall>p. count_list ws p = npaths n h c p))"
      using Suc.IH closed_children [OF assms node] by blast
  qed
  then obtain ws where ws: "same_shape h (fst s')" "snd s' = (snd s @ [v]) @ ws"
    "\<forall>p. count_list ws p = sum_list (map (\<lambda>c. npaths n h c p) (children node))" by auto
  then have "snd s' = snd s @ (v # ws)"
    "\<forall>p. count_list (v # ws) p = npaths (Suc n) h v p"
    using node by auto
  with ws(1) show ?case by blast
qed

lemma cyclic_child:
  assumes "cyclic_from h v" and "h v = Some node"
  shows "\<exists>c \<in> set (children node). cyclic_from h c"
proof -
  from assms(1) obtain w c0 where w: "w \<in> reach h v" "c0 \<in> operands h w" "w \<in> reach h c0"
    unfolding cyclic_from_def by blast
  from w(1) consider "w = v" | c where "c \<in> set (children node)" "w \<in> reach h c"
    unfolding reach_unfold [of h v node, OF assms(2)] by blast
  then show ?thesis
  proof cases
    case 1
    with w assms(2) have "c0 \<in> set (children node)" "v \<in> reach h c0"
      by (simp_all add: operands_def)
    moreover from this w 1 have "cyclic_from h c0" unfolding cyclic_from_def by blast
    ultimately show ?thesis by blast
  next
    case 2
    with w have "cyclic_from h c" unfolding cyclic_from_def by blast
    with 2 show ?thesis by blast
  qed
qed

lemma zero_grad_graph_closed:
  assumes "closed_heap h"
  shows "v \<in> dom h \<Longrightarrow> same_shape h (fst s) \<Longrightarrow>
     zero_grad_graph n v s = None \<or>
     (\<exists>s'. zero_grad_graph n v s = Some (Inr s') \<and> same_shape h (fst s'))"
proof (induction n arbitrary: v s)
  case 0
  then show ?case by simp
next
  case (Suc n)
  from Suc.prems(1) obtain node where node: "h v = Some node" by auto
  with assms have v0: "v \<noteq> 0" by (rule closed_nonnull)
  from same_shape_lookup [OF Suc.prems(2) node] obtain node' where
    node': "fst s v = Some node'" "children node' = children node" by blast
  let ?s1 = "((fst s)(v \<mapsto> node'\<lparr>grad := 0\<rparr>), snd s @ [v])"
  let ?P = "\<lambda>t. same_shape h (fst t)"
  have sh1: "?P ?s1"
    using same_shape_trans [OF Suc.prems(2) same_shape_upd [of "fst s" v node' 0]] node'(1)
    by simp
  have step: "zero_grad_graph n x t = None \<or> (\<exists>t'. zero_grad_graph n x t = Some (Inr t') \<and> ?P t')"
    if "x \<in> set (children node)" "?P t" for x t
    using Suc.IH [OF closed_children [OF assms node that(1)] that(2)] .
  have "(\<exists>s'. for_each (zero_grad_graph n) (children node) ?s1 = Some (Inr s') \<and> ?P s') \<or>
        (\<exists>x \<in> set (children node). \<exists>t. ?P t \<and>
           for_each (zero_grad_graph n) (children node) ?s1 = zero_grad_graph n x t \<and>
           (\<forall>t'. zero_grad_graph n x t \<noteq> Some (Inr t')))"
  proof (rule for_each_result [where P = ?P])
    show "?P ?s1" by (rule sh1)
  next
    fix x and t t' :: zero_state
    assume "x \<in> set (children node)" "?P t" "zero_grad_graph n x t = Some (Inr t')"
    then show "?P t'" using step by fastforce
  qed
  then have "for_each (zero_grad_graph n) (children node) ?s1 = None \<or>
     (\<exists>s'. for_each (zero_grad_graph n) (children node) ?s1 = Some (Inr s') \<and> ?P s')"
    using step by metis
  then show ?case using v0 node' by simp
qed

lemma for_each_diverges:
  assumes "c \<in> set cs" and "\<And>t. P t \<Longrightarrow> f c t = None"
    and "\<And>x t. x \<in> set cs \<Longrightarrow> P t \<Longrightarrow> f x t = None \<or> (\<exists>t'. f x t = Some (Inr t') \<and> P t')"
    and "P s"
  shows "for_each f cs s = None"
  using assms
proof (induction cs arbitrary: s)
  case Nil
  then show ?case by simp
next
  case (Cons x xs)
  show ?case
  proof (cases "f x s")
    case None
    then show ?thesis by simp
  next
    case (Some r)
    with Cons.prems(3) [of x s] Cons.prems(4) obtain t' where t': "f x s = Some (Inr t')" "P t'"
      by auto
    with Cons.prems(2) [OF Cons.prems(4)] have "c \<noteq> x" by auto
    with Cons.prems(1) have "c \<in> set xs" by simp
    from Cons.IH [OF this Cons.prems(2) _ t'(2)] Cons.prems(3) have "for_each f xs t' = None"
      by (meson list.set_intros(2))
    with t'(1) show ?thesis by simp
  qed
qed

lemma zero_grad_graph_diverges:
  assumes "closed_heap h"
  shows "cyclic_from h v \<Longrightarrow> v \<in> dom h \<Longrightarrow> same_shape h (fst s) \<Longrightarrow>
     zero_grad_graph n v s = None"
proof (induction n arbitrary: v s)
  case 0
  then show ?case by simp
next
  case (Suc n)
  from Suc.prems(2) obtain node where node: "h v = Some node" by auto
  with assms have v0: "v \<noteq> 0" by (rule closed_nonnull)
  from same_shape_lookup [OF Suc.prems(3) node] obtain node' where
    node': "fst s v = Some node'" "children node' = children node" by blast
  let ?s1 = "((fst s)(v \<mapsto> node'\<lparr>grad := 0\<rparr>), snd s @ [v])"
  let ?P = "\<lambda>t. same_shape h (fst t)"
  have sh1: "?P ?s1"
    using same_shape_trans [OF Suc.prems(3) same_shape_upd [of "fst s" v node' 0]] node'(1)
    by simp
  from cyclic_child [OF Suc.prems(1) node] obtain c where
    c: "c \<in> set (children node)" "cyclic_from h c" by blast
  have "for_each (zero_grad_graph n) (children node) ?s1 = None"
  proof (rule for_each_diverges [where P = ?P and c = c])
    show "c \<in> set (children node)" by (rule c(1))
    show "?P ?s1" by (rule sh1)
  next
    fix t :: zero_state assume "?P t"
    then show "zero_grad_graph n c t = None"
      using Suc.IH [OF c(2) closed_children [OF assms node c(1)]] by blast
  next
    fix x and t :: zero_state assume "x \<in> set (children node)" "?P t"
    then show "zero_grad_graph n x t = None \<or>
       (\<exists>t'. zero_grad_graph n x t = Some (Inr t') \<and> ?P t')"
      using zero_grad_graph_closed [OF assms closed_children [OF assms node]] by blast
  qed
  then show ?case using v0 node' by simp
qed

subsection \<open>\<open>backward\<close> returns on a closed heap\<close>

lemma closed_shape:
  assumes "same_shape h k" and "closed_heap h"
  shows "closed_heap k"
proof -
  have "set (children node) \<subseteq> dom k" if "k p = Some node" for p node
  proof -
    from same_shape_lookup [OF same_shape_sym [OF assms(1)] that]
    obtain node' where "h p = Some node'" "children node' = children node" by auto
    with assms(2) have "set (children node) \<subseteq> dom h" unfolding closed_heap_def by metis
    then show ?thesis using same_shape_dom [OF assms(1)] by simp
  qed
  moreover have "k 0 = None"
    using assms(2) same_shape_None [OF assms(1)] by (simp add: closed_heap_def)
  ultimately show ?thesis unfolding closed_heap_def by blast
qed

lemma call_backward_total:
  assumes "closed_heap k" and "k out = Some vo"
  shows "(\<exists>k'. call_backward f k out = Inr k') \<or> call_backward f k out = Inl NotFinite"
proof -
  have c0: "\<exists>n0. k (children vo ! 0) = Some n0" if "\<not> length (children vo) < 1"
    using closed_children [OF assms, of "children vo ! 0"] one_child [OF that] by auto
  have c1: "\<exists>n1. k (children vo ! 1) = Some n1" if "\<not> length (children vo) < 2"
    using closed_children [OF assms, of "children vo ! 1"] two_children [OF that] by auto
  show ?thesis
  proof (cases "length (children vo) < 1")
    case True
    then show ?thesis using assms(2) by (cases f) (simp_all add: rule_defs)
  next
    case one: False
    from c0 [OF one] obtain n0 where n0: "k (children vo ! 0) = Some n0" by blast
    show ?thesis
    proof (cases "length (children vo) < 2")
      case True
      then show ?thesis using assms(2) n0 one by (cases f) (simp_all add: rule_defs)
    next
      case two: False
      from c1 [OF two] obtain n1 where n1: "k (children vo ! 1) = Some n1" by blast
      show ?thesis using assms(2) n0 n1 one two
        by (cases f) (auto simp: rule_defs split: option.splits)
    qed
  qed
qed

lemma backward_loop_total:
  assumes "closed_heap k" and "set vs \<subseteq> dom k"
  shows "(\<exists>k'. backward_loop k vs = Inr k') \<or> backward_loop k vs = Inl NotFinite"
  using assms
proof (induction vs arbitrary: k)
  case Nil
  then show ?case by simp
next
  case (Cons v vs)
  from Cons.prems(2) obtain node where node: "k v = Some node" by auto
  show ?case
  proof (cases "backward_fn node")
    case None
    with node Cons.IH [OF Cons.prems(1)] Cons.prems(2) show ?thesis
      by (simp add: deref_def bind_err_simps)
  next
    case (Some f)
    from call_backward_total [OF Cons.prems(1) node, of f]
    consider k1 where "call_backward f k v = Inr k1" | "call_backward f k v = Inl NotFinite"
      by blast
    then show ?thesis
    proof cases
      case 1
      from call_backward_frame [OF 1] have sh: "same_shape k k1" by simp
      from closed_shape [OF sh Cons.prems(1)] have "closed_heap k1" .
      moreover from Cons.prems(2) same_shape_dom [OF sh] have "set vs \<subseteq> dom k1" by simp
      ultimately have "(\<exists>k'. backward_loop k1 vs = Inr k') \<or> backward_loop k1 vs = Inl NotFinite"
        using Cons.IH by blast
      with node Some 1 show ?thesis by (simp add: deref_def bind_err_simps)
    next
      case 2
      with node Some show ?thesis by (simp add: deref_def bind_err_simps)
    qed
  qed
qed

lemma build_topo_total:
  assumes "closed_heap h" and "v \<in> dom h" and "100 < n"
  shows "\<exists>s. build_topo n h v ([], \<lambda>i. 0) = Some (Inr s)"
proof -
  have "build_topo n h v ([], \<lambda>i. 0) \<noteq> None"
    using build_topo_returns [of "([], \<lambda>i. 0)" n h v] assms(3) by (simp add: free_slots_init)
  moreover have "build_topo n h v ([], \<lambda>i. 0) \<noteq> Some (Inl e)" for e
    using build_topo_no_error [OF assms(1,2), of "([], \<lambda>i. 0)" n e]
    by (simp add: free_slots_init)
  ultimately show ?thesis
  proof (cases "build_topo n h v ([], \<lambda>i. 0)")
    case None
    with \<open>build_topo n h v ([], \<lambda>i. 0) \<noteq> None\<close> show ?thesis by simp
  next
    case (Some res)
    with \<open>\<And>e. build_topo n h v ([], \<lambda>i. 0) \<noteq> Some (Inl e)\<close> show ?thesis
      by (cases res) auto
  qed
qed

lemma backward_total:
  assumes "closed_heap h" and "v \<in> dom h" and "100 < n"
  shows "(\<exists>h'. backward n h v = Some (Inr h')) \<or> backward n h v = Some (Inl NotFinite)"
proof -
  from build_topo_total [OF assms] obtain s where
    s: "build_topo n h v ([], \<lambda>i. 0) = Some (Inr s)" by blast
  from assms(2) obtain node where node: "h v = Some node" by auto
  let ?h0 = "h(v \<mapsto> node\<lparr>grad := 1\<rparr>)"
  have sh: "same_shape h ?h0" using node by (rule same_shape_upd)
  from build_topo_emitted [OF s] have "set (fst s) \<subseteq> dom h" by (auto simp: emitted_def)
  then have "set (rev (fst s)) \<subseteq> dom ?h0" by auto
  from backward_loop_total [OF closed_shape [OF sh assms(1)] this]
  have "(\<exists>h'. backward_loop ?h0 (rev (fst s)) = Inr h') \<or>
        backward_loop ?h0 (rev (fst s)) = Inl NotFinite" .
  with s node show ?thesis
    by (simp add: backward_def set_grad_def deref_def bind_err_simps)
qed

subsection \<open>\<open>build_topo\<close> when no two nodes share a slot\<close>

lemma operands_first_snoc:
  assumes "operands_first h xs" and "operands h x \<subseteq> set xs"
  shows "operands_first h (xs @ [x])"
  unfolding operands_first_def
proof (intro allI impI)
  fix i assume i: "i < length (xs @ [x])"
  show "operands h ((xs @ [x]) ! i) \<subseteq> set (take i (xs @ [x]))"
  proof (cases "i < length xs")
    case True
    with assms(1) show ?thesis by (simp add: operands_first_def nth_append)
  next
    case False
    with i have "i = length xs" by simp
    with assms(2) show ?thesis by simp
  qed
qed

lemma sorting_mark:
  assumes "sorting h W A s" and "x \<in> W" and "snd s (x mod 100) = 0"
    and inj: "inj_on (\<lambda>p. p mod 100) W"
  shows "sorting h W (insert x A) (fst s, (snd s)(x mod 100 := 1)) \<and> x \<notin> set (fst s) \<and> x \<notin> A"
proof -
  from assms(1,2,3) have x: "x \<notin> set (fst s)" "x \<notin> A" unfolding sorting_def by auto
  have "((snd s)(x mod 100 := 1)) (p mod 100) \<noteq> 0 \<longleftrightarrow> p \<in> set (fst s) \<union> insert x A"
    if "p \<in> W" for p
  proof (cases "p = x")
    case True
    then show ?thesis by simp
  next
    case False
    with inj that assms(2) have "p mod 100 \<noteq> x mod 100" by (auto dest: inj_onD)
    with False that assms(1) show ?thesis unfolding sorting_def by auto
  qed
  with assms(1) x show ?thesis unfolding sorting_def by auto
qed

lemma sorting_emit:
  assumes "sorting h W (insert x A) t" and "operands h x \<subseteq> set (fst t)" and "x \<in> W" and "x \<notin> A"
  shows "sorting h W A (fst t @ [x], snd t)"
proof -
  from assms(1) have "x \<notin> set (fst t)" unfolding sorting_def by auto
  with assms show ?thesis
    unfolding sorting_def by (auto simp: operands_first_snoc)
qed

lemma sorter_loop:
  assumes step: "\<And>c t t'. c \<in> set cs \<Longrightarrow> f c t = Some (Inr t') \<Longrightarrow> sorting h W A t \<Longrightarrow>
             sorting h W A t' \<and> c \<in> set (fst t') \<and> (\<exists>ys. fst t' = fst t @ ys)"
    and "for_each f cs s = Some (Inr s')" and "sorting h W A s"
  shows "sorting h W A s' \<and> set cs \<subseteq> set (fst s') \<and> (\<exists>ys. fst s' = fst s @ ys)"
  using assms
proof (induction cs arbitrary: s)
  case Nil
  then show ?case by simp
next
  case (Cons c cs)
  from Cons.prems(2) obtain t where t: "f c s = Some (Inr t)" "for_each f cs t = Some (Inr s')"
    by (auto split: option.splits sum.splits)
  from Cons.prems(1) [of c s t] t(1) Cons.prems(3)
  have ct: "sorting h W A t" "c \<in> set (fst t)" "\<exists>ys. fst t = fst s @ ys" by auto
  have "sorting h W A s' \<and> set cs \<subseteq> set (fst s') \<and> (\<exists>ys. fst s' = fst t @ ys)"
  proof (rule Cons.IH [OF _ t(2) ct(1)])
    fix c' t1 t1'
    assume "c' \<in> set cs" "f c' t1 = Some (Inr t1')" "sorting h W A t1"
    then show "sorting h W A t1' \<and> c' \<in> set (fst t1') \<and> (\<exists>ys. fst t1' = fst t1 @ ys)"
      using Cons.prems(1) [of c' t1 t1'] by simp
  qed
  with ct show ?case by auto
qed

lemma sorter_step:
  assumes "dag h rk" and inj: "inj_on (\<lambda>p. p mod 100) W" and cl: "\<forall>p \<in> W. operands h p \<subseteq> W"
  shows "build_topo n h x s = Some (Inr s') \<Longrightarrow> x \<in> W \<Longrightarrow> sorting h W A s \<Longrightarrow>
     \<forall>a \<in> A. rk x < rk a \<Longrightarrow>
     sorting h W A s' \<and> x \<in> set (fst s') \<and> (\<exists>ys. fst s' = fst s @ ys)"
proof (induction n arbitrary: x s s' A)
  case 0
  then show ?case by simp
next
  case (Suc n)
  have xA: "x \<notin> A" using Suc.prems(4) by auto
  show ?case
  proof (cases "snd s (x mod 100) = 0")
    case False
    with Suc.prems(1) have "s' = s" by simp
    moreover from False Suc.prems(2,3) xA have "x \<in> set (fst s)" unfolding sorting_def by auto
    ultimately show ?thesis using Suc.prems(3) by simp
  next
    case unv: True
    with Suc.prems(1) obtain node where node: "h x = Some node"
      by (auto split: option.splits)
    let ?s1 = "(fst s, (snd s)(x mod 100 := 1))"
    from Suc.prems(1) unv node obtain t where
      loop: "for_each (build_topo n h) (children node) ?s1 = Some (Inr t)"
      and s': "s' = (fst t @ [x], snd t)"
      by (auto split: option.splits sum.splits if_splits)
    from sorting_mark [OF Suc.prems(3,2) unv inj]
    have s1: "sorting h W (insert x A) ?s1" by simp
    have ops: "operands h x = set (children node)" using node by (simp add: operands_def)
    have "sorting h W (insert x A) t \<and> set (children node) \<subseteq> set (fst t) \<and>
          (\<exists>ys. fst t = fst ?s1 @ ys)"
    proof (rule sorter_loop [OF _ loop s1])
      fix c t1 t1'
      assume c: "c \<in> set (children node)" and run: "build_topo n h c t1 = Some (Inr t1')"
        and t1: "sorting h W (insert x A) t1"
      from c ops cl Suc.prems(2) have cW: "c \<in> W" by blast
      from assms(1) node c have "rk c < rk x" unfolding dag_def by blast
      with Suc.prems(4) have "\<forall>a \<in> insert x A. rk c < rk a" by auto
      from Suc.IH [OF run cW t1 this]
      show "sorting h W (insert x A) t1' \<and> c \<in> set (fst t1') \<and> (\<exists>ys. fst t1' = fst t1 @ ys)" .
    qed
    then have t: "sorting h W (insert x A) t" "operands h x \<subseteq> set (fst t)"
      "\<exists>ys. fst t = fst s @ ys" using ops by auto
    from sorting_emit [OF t(1,2) Suc.prems(2) xA] t(3) show ?thesis
      unfolding s' by auto
  qed
qed

lemma operands_first_closed:
  assumes "operands_first h xs" and "p \<in> set xs" and "c \<in> operands h p"
  shows "c \<in> set xs"
proof -
  from assms(2) obtain i where "i < length xs" "xs ! i = p" by (auto simp: in_set_conv_nth)
  with assms(1,3) have "c \<in> set (take i xs)" unfolding operands_first_def by blast
  then show ?thesis by (rule in_set_takeD)
qed

subsection \<open>Where a rule leaves the reals\<close>

lemma call_backward_NotFinite:
  assumes "call_backward f k out = Inl NotFinite"
  shows "f = Backward_pow \<and>
     (\<exists>vo vb ve. k out = Some vo \<and> \<not> length (children vo) < 2 \<and>
        k (children vo ! 0) = Some vb \<and> k (children vo ! 1) = Some ve \<and>
        c_pow (data vb) (data ve - 1) = None)"
  using assms
  by (cases f) (auto simp: rule_defs bind_err_def split: option.splits if_splits sum.splits)

lemma pow_defined_shape:
  assumes "same_shape h k" and "pow_defined h"
  shows "pow_defined k"
  unfolding pow_defined_def
proof (intro allI impI)
  fix p vo vb ve
  assume a: "k p = Some vo \<and> backward_fn vo = Some Backward_pow \<and>
        \<not> length (children vo) < 2 \<and>
        k (children vo ! 0) = Some vb \<and> k (children vo ! 1) = Some ve"
  note look = same_shape_lookup [OF same_shape_sym [OF assms(1)]]
  from a look [of p vo] obtain vo' where vo': "h p = Some vo'" "children vo' = children vo"
    "backward_fn vo' = backward_fn vo" by auto
  from a look [of "children vo ! 0" vb] obtain vb' where
    vb': "h (children vo ! 0) = Some vb'" "data vb' = data vb" by auto
  from a look [of "children vo ! 1" ve] obtain ve' where
    ve': "h (children vo ! 1) = Some ve'" "data ve' = data ve" by auto
  from assms(2) vo' vb' ve' a have "c_pow (data vb') (data ve' - 1) \<noteq> None"
    unfolding pow_defined_def by metis
  with vb' ve' show "c_pow (data vb) (data ve - 1) \<noteq> None" by simp
qed

lemma backward_loop_finite:
  "pow_defined k \<Longrightarrow> backward_loop k vs \<noteq> Inl NotFinite"
proof (induction vs arbitrary: k)
  case Nil
  then show ?case by simp
next
  case (Cons v vs)
  show ?case
  proof (cases "k v")
    case None
    then show ?thesis by (simp add: deref_def bind_err_simps)
  next
    case (Some node)
    show ?thesis
    proof (cases "backward_fn node")
      case None
      with Some Cons.IH [OF Cons.prems] show ?thesis by (simp add: deref_def bind_err_simps)
    next
      case f: (Some f)
      show ?thesis
      proof (cases "call_backward f k v")
        case (Inl e)
        have "e \<noteq> NotFinite"
        proof
          assume "e = NotFinite"
          with Inl call_backward_NotFinite [of f k v] Some f Cons.prems show False
            unfolding pow_defined_def by force
        qed
        with Some f Inl show ?thesis by (simp add: deref_def bind_err_simps)
      next
        case (Inr k1)
        from call_backward_frame [OF Inr] have "same_shape k k1" by simp
        from pow_defined_shape [OF this Cons.prems] have "pow_defined k1" .
        from Cons.IH [OF this] Some f Inr show ?thesis by (simp add: deref_def bind_err_simps)
      qed
    qed
  qed
qed

lemma backward_total_finite:
  assumes "closed_heap h" and "v \<in> dom h" and "100 < n" and "pow_defined h"
  shows "\<exists>h'. backward n h v = Some (Inr h')"
proof -
  from build_topo_total [OF assms(1,2,3)] obtain s where
    s: "build_topo n h v ([], \<lambda>i. 0) = Some (Inr s)" by blast
  from assms(2) obtain node where node: "h v = Some node" by auto
  let ?h0 = "h(v \<mapsto> node\<lparr>grad := 1\<rparr>)"
  have sh: "same_shape h ?h0" using node by (rule same_shape_upd)
  from build_topo_emitted [OF s] have "set (fst s) \<subseteq> dom h" by (auto simp: emitted_def)
  then have "set (rev (fst s)) \<subseteq> dom ?h0" by auto
  from backward_loop_total [OF closed_shape [OF sh assms(1)] this]
    backward_loop_finite [OF pow_defined_shape [OF sh assms(4)], of "rev (fst s)"]
  obtain h' where "backward_loop ?h0 (rev (fst s)) = Inr h'" by blast
  with s node show ?thesis
    by (simp add: backward_def set_grad_def deref_def bind_err_simps)
qed

subsection \<open>Whether a rule returns depends on the shape alone\<close>

lemma add_grad_shape:
  assumes "same_shape k m" and "add_grad k p x = Inr k'"
  shows "\<exists>m'. add_grad m p y = Inr m' \<and> same_shape k' m'"
proof -
  from add_grad_Inr [OF assms(2)] obtain node where node: "k p = Some node" by blast
  from same_shape_lookup [OF assms(1) node] obtain node' where node': "m p = Some node'" by blast
  let ?m' = "m(p \<mapsto> node'\<lparr>grad := grad node' + y\<rparr>)"
  have "add_grad m p y = Inr ?m'" using node' by (simp add: add_grad_def deref_def bind_err_simps)
  moreover have "same_shape m ?m'" using node' by (rule same_shape_upd)
  moreover have "same_shape k k'" using add_grad_frame [OF assms(2)] by simp
  ultimately show ?thesis
    using assms(1) same_shape_trans same_shape_sym by blast
qed

lemma call_backward_shape:
  assumes sh: "same_shape k m" and run: "call_backward f k out = Inr k'"
  shows "\<exists>m'. call_backward f m out = Inr m'"
proof -
  from run obtain vo where vo: "k out = Some vo"
    by (cases f) (auto simp: rule_defs bind_err_Inr deref_Inr bind_err_def split: option.splits)
  from same_shape_lookup [OF sh vo] obtain vo' where vo': "m out = Some vo'"
    "children vo' = children vo" by blast
  show ?thesis
  proof (cases f)
    case Backward_add
    show ?thesis
    proof (cases "length (children vo) < 2")
      case True
      with vo' show ?thesis by (simp add: Backward_add rule_defs)
    next
      case False
      with run vo obtain k1 o1 where k1: "add_grad k (children vo ! 0) (grad vo) = Inr k1"
        and o1: "k1 out = Some o1" and k': "add_grad k1 (children o1 ! 1) (grad o1) = Inr k'"
        by (auto simp: Backward_add backward_add_def bind_err_Inr deref_Inr)
      from add_grad_shape [OF sh k1, of "grad vo'"] obtain m1 where
        m1: "add_grad m (children vo ! 0) (grad vo') = Inr m1" and s1: "same_shape k1 m1" by blast
      from same_shape_lookup [OF s1 o1] obtain o1' where o1': "m1 out = Some o1'"
        "children o1' = children o1" by blast
      from add_grad_shape [OF s1 k', of "grad o1'"] obtain m' where
        "add_grad m1 (children o1 ! 1) (grad o1') = Inr m'" by blast
      with False vo' m1 o1' show ?thesis
        by (simp add: Backward_add backward_add_def deref_def bind_err_simps)
    qed
  next
    case Backward_mul
    show ?thesis
    proof (cases "length (children vo) < 2")
      case True
      with vo' show ?thesis by (simp add: Backward_mul rule_defs)
    next
      case False
      with run vo obtain c1 k1 o1 c0 where c1: "k (children vo ! 1) = Some c1"
        and k1: "add_grad k (children vo ! 0) (data c1 * grad vo) = Inr k1"
        and o1: "k1 out = Some o1" and c0: "k1 (children o1 ! 0) = Some c0"
        and k': "add_grad k1 (children o1 ! 1) (data c0 * grad o1) = Inr k'"
        by (auto simp: Backward_mul backward_mul_def bind_err_Inr deref_Inr)
      from same_shape_lookup [OF sh c1] obtain c1' where c1': "m (children vo ! 1) = Some c1'"
        by blast
      from add_grad_shape [OF sh k1, of "data c1' * grad vo'"] obtain m1 where
        m1: "add_grad m (children vo ! 0) (data c1' * grad vo') = Inr m1"
        and s1: "same_shape k1 m1" by blast
      from same_shape_lookup [OF s1 o1] obtain o1' where o1': "m1 out = Some o1'"
        "children o1' = children o1" by blast
      from same_shape_lookup [OF s1 c0] obtain c0' where c0': "m1 (children o1 ! 0) = Some c0'"
        by blast
      from add_grad_shape [OF s1 k', of "data c0' * grad o1'"] obtain m' where
        "add_grad m1 (children o1 ! 1) (data c0' * grad o1') = Inr m'" by blast
      with False vo' c1' m1 o1' c0' show ?thesis
        by (simp add: Backward_mul backward_mul_def deref_def bind_err_simps)
    qed
  next
    case Backward_pow
    show ?thesis
    proof (cases "length (children vo) < 2")
      case True
      with vo' show ?thesis by (simp add: Backward_pow rule_defs)
    next
      case False
      with run vo obtain b e w where b: "k (children vo ! 0) = Some b"
        and e: "k (children vo ! 1) = Some e" and w: "c_pow (data b) (data e - 1) = Some w"
        and k': "add_grad k (children vo ! 0) (data e * w * grad vo) = Inr k'"
        by (auto simp: Backward_pow backward_pow_def bind_err_Inr deref_Inr split: option.splits)
      from same_shape_lookup [OF sh b] obtain b' where b': "m (children vo ! 0) = Some b'"
        "data b' = data b" by blast
      from same_shape_lookup [OF sh e] obtain e' where e': "m (children vo ! 1) = Some e'"
        "data e' = data e" by blast
      from add_grad_shape [OF sh k', of "data e' * w * grad vo'"] obtain m' where
        "add_grad m (children vo ! 0) (data e' * w * grad vo') = Inr m'" by blast
      with False vo' b' e' w show ?thesis
        by (simp add: Backward_pow backward_pow_def deref_def bind_err_simps)
    qed
  next
    case Backward_exp
    show ?thesis
    proof (cases "length (children vo) < 1")
      case True
      with vo' show ?thesis by (simp add: Backward_exp rule_defs)
    next
      case False
      with run vo have k': "add_grad k (children vo ! 0) (data vo * grad vo) = Inr k'"
        by (auto simp: Backward_exp backward_exp_def bind_err_Inr deref_Inr)
      from add_grad_shape [OF sh k', of "data vo' * grad vo'"] obtain m' where
        "add_grad m (children vo ! 0) (data vo' * grad vo') = Inr m'" by blast
      with False vo' show ?thesis
        by (simp add: Backward_exp backward_exp_def deref_def bind_err_simps)
    qed
  next
    case Backward_relu
    show ?thesis
    proof (cases "length (children vo) < 1")
      case True
      with vo' show ?thesis by (simp add: Backward_relu rule_defs)
    next
      case False
      with run vo have k': "add_grad k (children vo ! 0)
          ((if data vo > 0 then 1 else 0) * grad vo) = Inr k'"
        by (auto simp: Backward_relu backward_relu_def bind_err_Inr deref_Inr)
      from add_grad_shape [OF sh k', of "(if data vo' > 0 then 1 else 0) * grad vo'"]
      obtain m' where
        "add_grad m (children vo ! 0) ((if data vo' > 0 then 1 else 0) * grad vo') = Inr m'"
        by blast
      with False vo' show ?thesis
        by (simp add: Backward_relu backward_relu_def deref_def bind_err_simps)
    qed
  qed
qed

lemma backward_loop_shape:
  "same_shape k m \<Longrightarrow> backward_loop k vs = Inr k' \<Longrightarrow> \<exists>m'. backward_loop m vs = Inr m'"
proof (induction vs arbitrary: k m)
  case Nil
  then show ?case by simp
next
  case (Cons v vs)
  from Cons.prems(2) obtain node where node: "k v = Some node"
    and r: "(case backward_fn node of None \<Rightarrow> backward_loop k vs
       | Some f \<Rightarrow> bind_err (call_backward f k v) (\<lambda>h'. backward_loop h' vs)) = Inr k'"
    by (auto simp: bind_err_Inr deref_Inr)
  from same_shape_lookup [OF Cons.prems(1) node] obtain node' where node': "m v = Some node'"
    "backward_fn node' = backward_fn node" by blast
  show ?case
  proof (cases "backward_fn node")
    case None
    with r have "backward_loop k vs = Inr k'" by simp
    from Cons.IH [OF Cons.prems(1) this] None node' show ?thesis
      by (simp add: deref_def bind_err_simps)
  next
    case (Some f)
    with r obtain k1 where k1: "call_backward f k v = Inr k1" and l: "backward_loop k1 vs = Inr k'"
      by (auto simp: bind_err_Inr)
    from call_backward_shape [OF Cons.prems(1) k1] obtain m1 where
      m1: "call_backward f m v = Inr m1" by blast
    from call_backward_frame [OF k1] call_backward_frame [OF m1] Cons.prems(1)
    have "same_shape k1 m1" using same_shape_trans same_shape_sym by blast
    from Cons.IH [OF this l] Some node' m1 show ?thesis
      by (simp add: deref_def bind_err_simps)
  qed
qed


subsection \<open>The root is emitted last, and once\<close>

lemma build_topo_unmarked:
  "build_topo n h v s = Some (Inr s') \<Longrightarrow>
     \<exists>ys. fst s' = fst s @ ys \<and> (\<forall>y \<in> set ys. snd s (y mod 100) = 0)"
proof (induction n arbitrary: v s s')
  case 0
  then show ?case by simp
next
  case (Suc n)
  show ?case
  proof (cases "snd s (v mod 100) \<noteq> 0")
    case True
    with Suc.prems show ?thesis by simp
  next
    case False
    then have unv: "snd s (v mod 100) = 0" by simp
    from Suc.prems unv obtain node where node: "h v = Some node"
      by (auto split: option.splits)
    let ?s1 = "(fst s, (snd s)(v mod 100 := 1))"
    let ?P = "\<lambda>t. (\<exists>ys. fst t = fst s @ ys \<and> (\<forall>y \<in> set ys. snd s (y mod 100) = 0)) \<and>
                  (\<forall>i. snd s i \<noteq> 0 \<longrightarrow> snd t i \<noteq> 0)"
    from Suc.prems unv node obtain t where
      loop: "for_each (build_topo n h) (children node) ?s1 = Some (Inr t)"
      and s': "s' = (fst t @ [v], snd t)"
      by (auto split: option.splits sum.splits if_splits)
    have "?P t"
    proof (rule for_each_Inr [OF loop, where P = ?P])
      show "?P ?s1" by simp
    next
      fix x t1 t1'
      assume t1: "?P t1" and run: "build_topo n h x t1 = Some (Inr t1')"
      from t1 obtain ys where ys: "fst t1 = fst s @ ys" "\<forall>y \<in> set ys. snd s (y mod 100) = 0"
        and mono: "\<forall>i. snd s i \<noteq> 0 \<longrightarrow> snd t1 i \<noteq> 0" by blast
      from Suc.IH [OF run] obtain zs where zs: "fst t1' = fst t1 @ zs"
        "\<forall>y \<in> set zs. snd t1 (y mod 100) = 0" by blast
      from build_topo_emitted [OF run] have mono': "\<forall>i. snd t1 i \<noteq> 0 \<longrightarrow> snd t1' i \<noteq> 0"
        by (simp add: emitted_def)
      from zs(2) mono have "\<forall>y \<in> set zs. snd s (y mod 100) = 0" by blast
      with ys zs(1) have "fst t1' = fst s @ (ys @ zs) \<and>
          (\<forall>y \<in> set (ys @ zs). snd s (y mod 100) = 0)" by auto
      then have "\<exists>ys. fst t1' = fst s @ ys \<and> (\<forall>y \<in> set ys. snd s (y mod 100) = 0)" by blast
      with mono mono' show "?P t1'" by blast
    qed
    then obtain ys where ys: "fst t = fst s @ ys" "\<forall>y \<in> set ys. snd s (y mod 100) = 0"
      by blast
    with unv s' have "fst s' = fst s @ (ys @ [v]) \<and>
        (\<forall>y \<in> set (ys @ [v]). snd s (y mod 100) = 0)" by auto
    then show ?thesis by blast
  qed
qed

lemma build_topo_root_last:
  assumes "build_topo n h v ([], \<lambda>i. 0) = Some (Inr s)"
  shows "\<exists>ys. fst s = ys @ [v] \<and> v \<notin> set ys \<and> set ys \<subseteq> reach h v"
proof (cases n)
  case 0
  with assms show ?thesis by simp
next
  case (Suc k)
  from assms Suc obtain node where node: "h v = Some node"
    by (auto split: option.splits)
  let ?s1 = "([]::addr list, (\<lambda>i. 0::int)(v mod 100 := 1))"
  let ?P = "\<lambda>t::topo_state. v \<notin> set (fst t) \<and> snd t (v mod 100) \<noteq> 0"
  from assms Suc node obtain t where
    loop: "for_each (build_topo k h) (children node) ?s1 = Some (Inr t)"
    and s: "s = (fst t @ [v], snd t)"
    by (auto split: option.splits sum.splits if_splits)
  have "?P t"
  proof (rule for_each_Inr [OF loop, where P = ?P])
    show "?P ?s1" by simp
  next
    fix x and t1 t1' :: topo_state
    assume t1: "?P t1" and run: "build_topo k h x t1 = Some (Inr t1')"
    from build_topo_unmarked [OF run] obtain zs where zs: "fst t1' = fst t1 @ zs"
      "\<forall>y \<in> set zs. snd t1 (y mod 100) = 0" by blast
    from build_topo_emitted [OF run] have "\<forall>i. snd t1 i \<noteq> 0 \<longrightarrow> snd t1' i \<noteq> 0"
      by (simp add: emitted_def)
    with t1 zs show "?P t1'" by auto
  qed
  moreover from build_topo_emitted [OF assms] have "set (fst s) \<subseteq> reach h v"
    by (auto simp: emitted_def)
  ultimately show ?thesis using s by auto
qed

subsection \<open>Every gradient but the root's is added to\<close>

lemma same_shape_shift:
  assumes "same_shape k m"
  shows "\<exists>d. m = shift k d \<and> (\<forall>q. m q = k q \<longrightarrow> d q = 0) \<and>
           (\<forall>q a b. m q = Some a \<and> k q = Some b \<longrightarrow> d q = grad a - grad b)"
proof -
  define d where "d q = (case m q of None \<Rightarrow> 0
      | Some a \<Rightarrow> (case k q of None \<Rightarrow> 0 | Some b \<Rightarrow> grad a - grad b))" for q
  have "m q = shift k d q" for q
  proof (cases "k q")
    case None
    with same_shape_None [OF assms] show ?thesis by (simp add: shift_apply)
  next
    case (Some b)
    from same_shape_lookup [OF assms Some] obtain a where a: "m q = Some a"
      "data a = data b" "children a = children b" "backward_fn a = backward_fn b" by blast
    then have "b\<lparr>grad := grad a\<rparr> = a" by (cases a, cases b) simp
    with Some a show ?thesis by (simp add: shift_apply d_def)
  qed
  then have "m = shift k d" by (rule ext)
  moreover have "d q = 0" if "m q = k q" for q
    using that by (simp add: d_def split: option.splits)
  moreover have "d q = grad a - grad b" if "m q = Some a \<and> k q = Some b" for q a b
    using that by (simp add: d_def)
  ultimately show ?thesis by blast
qed

lemma shift_zero: "d q = 0 \<Longrightarrow> shift k d q = k q"
  by (cases "k q") (simp_all add: shift_apply)

lemma dag_reach_rank:
  assumes "dag h rk" and "p \<in> reach h r"
  shows "rk p \<le> rk r"
  using assms(2)
proof (induction rule: reach.induct)
  case root
  then show ?case by simp
next
  case (step p node c)
  with assms(1) have "rk c < rk p" unfolding dag_def by blast
  with step.IH show ?case by simp
qed

lemma dag_acyclic:
  assumes "dag h rk" and "n \<in> reach h p"
  shows "p \<notin> operands h n"
proof
  assume "p \<in> operands h n"
  then obtain vn where "h n = Some vn" "p \<in> set (children vn)"
    by (auto simp: operands_def split: option.splits)
  with assms(1) have "rk p < rk n" unfolding dag_def by blast
  with dag_reach_rank [OF assms] show False by simp
qed

lemma backward_loop_raise:
  assumes "\<forall>n \<in> reach h p. p \<notin> operands h n"
  shows "same_shape h k \<Longrightarrow> same_shape k m \<Longrightarrow> (\<forall>q. q \<notin> reach h p \<longrightarrow> m q = k q) \<Longrightarrow>
     gradient m p = map_option (\<lambda>g. g + x) (gradient k p) \<Longrightarrow>
     backward_loop k vs = Inr k' \<Longrightarrow>
     \<exists>m'. backward_loop m vs = Inr m' \<and> (\<forall>q. q \<notin> reach h p \<longrightarrow> m' q = k' q) \<and>
        gradient m' p = map_option (\<lambda>g. g + x) (gradient k' p)"
proof (induction vs arbitrary: k m)
  case Nil
  then show ?case by simp
next
  case (Cons v vs)
  from Cons.prems(5) obtain node where node: "k v = Some node"
    and r: "(case backward_fn node of None \<Rightarrow> backward_loop k vs
       | Some f \<Rightarrow> bind_err (call_backward f k v) (\<lambda>h'. backward_loop h' vs)) = Inr k'"
    by (auto simp: bind_err_Inr deref_Inr)
  from same_shape_lookup [OF Cons.prems(2) node] obtain node' where node': "m v = Some node'"
    "backward_fn node' = backward_fn node" by blast
  show ?case
  proof (cases "backward_fn node")
    case None
    with r have "backward_loop k vs = Inr k'" by simp
    from Cons.IH [OF Cons.prems(1,2,3,4) this] None node' show ?thesis
      by (simp add: deref_def bind_err_simps)
  next
    case (Some f)
    with r obtain k1 where k1: "call_backward f k v = Inr k1" and l: "backward_loop k1 vs = Inr k'"
      by (auto simp: bind_err_Inr)
    from call_backward_frame [OF k1] have kk1: "same_shape k k1"
      and fk: "\<forall>q. k1 q \<noteq> k q \<longrightarrow> q \<in> operands k v" by auto
    have hk1: "same_shape h k1" using Cons.prems(1) kk1 by (rule same_shape_trans)
    have "\<exists>m1. call_backward f m v = Inr m1 \<and> same_shape k1 m1 \<and>
            (\<forall>q. q \<notin> reach h p \<longrightarrow> m1 q = k1 q) \<and>
            gradient m1 p = map_option (\<lambda>g. g + x) (gradient k1 p)"
    proof (cases "v \<in> reach h p")
      case False
      with Cons.prems(3) have mv: "m v = k v" by blast
      from same_shape_shift [OF Cons.prems(2)] obtain d where d: "m = shift k d"
        "\<forall>q. m q = k q \<longrightarrow> d q = 0"
        "\<forall>q a b. m q = Some a \<and> k q = Some b \<longrightarrow> d q = grad a - grad b" by blast
      from d(2) mv have dv: "d v = 0" by blast
      have run: "call_backward f m v = Inr (shift k1 d)"
        unfolding d(1) call_backward_shift [of d v, OF dv] k1 by simp
      have out: "shift k1 d q = k1 q" if "q \<notin> reach h p" for q
        using that Cons.prems(3) d(2) shift_zero by blast
      have "gradient (shift k1 d) p = map_option (\<lambda>g. g + x) (gradient k1 p)"
      proof (cases "k p")
        case None
        with same_shape_None [OF kk1] show ?thesis by (simp add: gradient_def shift_apply)
      next
        case (Some b)
        from same_shape_lookup [OF Cons.prems(2) Some] obtain a where a: "m p = Some a" by blast
        with Some Cons.prems(4) have "grad a = grad b + x" by (simp add: gradient_def)
        moreover from d(3) a Some have "d p = grad a - grad b" by blast
        ultimately have "d p = x" by simp
        moreover from same_shape_lookup [OF kk1 Some] obtain b1 where "k1 p = Some b1" by blast
        ultimately show ?thesis by (simp add: gradient_def shift_apply)
      qed
      with run out shift_shape [of k1 d] show ?thesis by blast
    next
      case True
      from call_backward_shape [OF Cons.prems(2) k1] obtain m1 where
        m1: "call_backward f m v = Inr m1" by blast
      from call_backward_frame [OF m1] have mm1: "same_shape m m1"
        and fm: "\<forall>q. m1 q \<noteq> m q \<longrightarrow> q \<in> operands m v" by auto
      have ops_k: "operands k v = operands h v"
        using operands_shape [OF Cons.prems(1)] by simp
      have ops_m: "operands m v = operands h v"
        using operands_shape [OF Cons.prems(2)] ops_k by simp
      have below: "q \<in> reach h p" if "q \<in> operands h v" for q
        using operands_reach [OF True that] .
      have notp: "p \<notin> operands h v" using assms True by blast
      have out: "m1 q = k1 q" if "q \<notin> reach h p" for q
      proof -
        from that below have "q \<notin> operands h v" by blast
        with fk fm ops_k ops_m have "k1 q = k q" "m1 q = m q" by auto
        with Cons.prems(3) that show ?thesis by simp
      qed
      from notp fk fm ops_k ops_m have "k1 p = k p" "m1 p = m p" by auto
      with Cons.prems(4) have "gradient m1 p = map_option (\<lambda>g. g + x) (gradient k1 p)"
        by (simp add: gradient_def)
      moreover have "same_shape k1 m1"
        using same_shape_trans [OF same_shape_sym [OF kk1]
            same_shape_trans [OF Cons.prems(2) mm1]] .
      ultimately show ?thesis using m1 out by blast
    qed
    then obtain m1 where m1: "call_backward f m v = Inr m1" "same_shape k1 m1"
      "\<forall>q. q \<notin> reach h p \<longrightarrow> m1 q = k1 q"
      "gradient m1 p = map_option (\<lambda>g. g + x) (gradient k1 p)" by blast
    from Cons.IH [OF hk1 m1(2,3,4) l] Some node' m1(1) show ?thesis
      by (simp add: deref_def bind_err_simps)
  qed
qed

lemma backward_raise:
  assumes "\<forall>n \<in> reach h p. p \<notin> operands h n" and "p \<noteq> r"
    and "backward fuel h r = Some (Inr h1)"
  shows "\<exists>h1'. backward fuel (shift h ((\<lambda>q. 0)(p := x))) r = Some (Inr h1') \<and>
           gradient h1' p = map_option (\<lambda>g. g + x) (gradient h1 p) \<and>
           (\<forall>q. q \<notin> reach h p \<longrightarrow> h1' q = h1 q)"
proof -
  let ?d = "(\<lambda>q. 0::real)(p := x)"
  from assms(3) obtain s node where topo: "build_topo fuel h r ([], \<lambda>i. 0) = Some (Inr s)"
    and node: "h r = Some node"
    and loop: "backward_loop (h(r \<mapsto> node\<lparr>grad := 1\<rparr>)) (rev (fst s)) = Inr h1"
    by (rule backward_Inr)
  let ?h0 = "h(r \<mapsto> node\<lparr>grad := 1\<rparr>)"
  have s0: "same_shape h ?h0" using node by (rule same_shape_upd)
  have b: "set_grad (shift h ?d) r 1 = Inr (shift ?h0 ?d)"
    using node assms(2) by (simp add: set_grad_def deref_def bind_err_simps shift_apply shift_upd)
  have out: "\<forall>q. q \<notin> reach h p \<longrightarrow> shift ?h0 ?d q = ?h0 q"
  proof (intro allI impI)
    fix q assume "q \<notin> reach h p"
    then have "q \<noteq> p" using reach.root by blast
    then have "?d q = 0" by simp
    then show "shift ?h0 ?d q = ?h0 q" by (rule shift_zero)
  qed
  have g: "gradient (shift ?h0 ?d) p = map_option (\<lambda>g. g + x) (gradient ?h0 p)"
    by (cases "?h0 p") (simp_all add: gradient_def shift_apply)
  from backward_loop_raise [OF assms(1) s0 shift_shape out g loop]
  obtain m' where m': "backward_loop (shift ?h0 ?d) (rev (fst s)) = Inr m'"
    "\<forall>q. q \<notin> reach h p \<longrightarrow> m' q = h1 q"
    "gradient m' p = map_option (\<lambda>g. g + x) (gradient h1 p)" by blast
  have "backward fuel (shift h ?d) r = Some (Inr m')"
    unfolding backward_def build_topo_shape [OF shift_shape] topo b using m'(1)
    by (simp add: bind_err_simps)
  with m'(2,3) show ?thesis by blast
qed

subsection \<open>A second pass without reset\<close>

lemma second_pass_doubles:
  assumes h1: "backward fuel h r = Some (Inr h1)"
  shows "\<exists>h2. backward fuel h1 r = Some (Inr h2) \<and>
     (\<forall>c. c \<noteq> r \<and> gradient h c = Some 0 \<and> (\<forall>n \<in> reach h r. c \<in> operands h n \<longrightarrow> n = r)
        \<longrightarrow> gradient h2 c = map_option (\<lambda>g. 2 * g) (gradient h1 c))"
proof -
  from h1 obtain s node where topo: "build_topo fuel h r ([], \<lambda>i. 0) = Some (Inr s)"
    and node: "h r = Some node"
    and loop: "backward_loop (h(r \<mapsto> node\<lparr>grad := 1\<rparr>)) (rev (fst s)) = Inr h1"
    by (rule backward_Inr)
  let ?h0 = "h(r \<mapsto> node\<lparr>grad := 1\<rparr>)"
  from build_topo_root_last [OF topo] obtain ys where ys: "fst s = ys @ [r]" "r \<notin> set ys"
    "set ys \<subseteq> reach h r" by blast
  have s0: "same_shape h ?h0" using node by (rule same_shape_upd)
  from backward_frame [OF h1] have shape: "same_shape h h1" by simp
  from same_shape_lookup [OF shape node] obtain node1 where node1: "h1 r = Some node1"
    "data node1 = data node" "children node1 = children node"
    "backward_fn node1 = backward_fn node" by blast
  let ?b0 = "h1(r \<mapsto> node1\<lparr>grad := 1\<rparr>)"
  have sb: "same_shape h1 ?b0" using node1(1) by (rule same_shape_upd)
  have s0b: "same_shape ?h0 ?b0"
    using same_shape_trans [OF same_shape_sym [OF s0] same_shape_trans [OF shape sb]] .
  have root_eq: "node1\<lparr>grad := 1\<rparr> = node\<lparr>grad := 1\<rparr>"
    using node1(2,3,4) by (cases node, cases node1) simp
  from same_shape_shift [OF s0b] obtain d where d: "?b0 = shift ?h0 d"
    "\<forall>q. ?b0 q = ?h0 q \<longrightarrow> d q = 0"
    "\<forall>q a b. ?b0 q = Some a \<and> ?h0 q = Some b \<longrightarrow> d q = grad a - grad b" by blast
  from d(2) root_eq have dr: "d r = 0" by simp
  obtain a1 where a1: "backward_loop a1 (rev ys) = Inr h1"
    "backward_loop (shift ?h0 d) (rev (fst s)) = backward_loop (shift a1 d) (rev ys)"
  proof (cases "backward_fn node")
    case None
    with loop ys(1) have "backward_loop ?h0 (rev ys) = Inr h1"
      by (simp add: deref_def bind_err_simps)
    moreover have "backward_loop (shift ?h0 d) (rev (fst s)) = backward_loop (shift ?h0 d) (rev ys)"
      using None ys(1) dr by (simp add: deref_def bind_err_simps shift_apply)
    ultimately show ?thesis using that by blast
  next
    case (Some f)
    with loop ys(1) obtain k1 where k1: "call_backward f ?h0 r = Inr k1"
      "backward_loop k1 (rev ys) = Inr h1"
      by (auto simp: deref_def bind_err_simps bind_err_Inr)
    have "backward_loop (shift ?h0 d) (rev (fst s)) = backward_loop (shift k1 d) (rev ys)"
      using Some ys(1) dr k1(1)
      by (simp add: deref_def bind_err_simps shift_apply call_backward_shift [of d r, OF dr])
    with k1(2) show ?thesis using that by blast
  qed
  from backward_loop_shape [OF shift_shape a1(1)] obtain h2 where
    h2: "backward_loop (shift a1 d) (rev ys) = Inr h2" by blast
  have run2: "backward fuel h1 r = Some (Inr h2)"
    unfolding backward_def build_topo_shape [OF shape] topo
    using node1(1) h2 a1(2) d(1) by (simp add: set_grad_def deref_def bind_err_simps)
  from backward_loop_frame [OF a1(1)] have sa: "same_shape a1 h1"
    and fa: "\<forall>q. h1 q \<noteq> a1 q \<longrightarrow> (\<exists>n \<in> set (rev ys). q \<in> operands a1 n)" by auto
  from backward_loop_frame [OF h2]
  have fb: "\<forall>q. h2 q \<noteq> shift a1 d q \<longrightarrow> (\<exists>n \<in> set (rev ys). q \<in> operands (shift a1 d) n)"
    by auto
  have ops_a: "operands a1 n = operands h n" for n
    using operands_shape [OF same_shape_trans [OF shape same_shape_sym [OF sa]]] by simp
  have ops_b: "operands (shift a1 d) n = operands h n" for n
    using operands_shape [OF shift_shape, of a1 d] ops_a by simp
  have "gradient h2 c = map_option (\<lambda>g. 2 * g) (gradient h1 c)"
    if c: "c \<noteq> r \<and> gradient h c = Some 0 \<and> (\<forall>n \<in> reach h r. c \<in> operands h n \<longrightarrow> n = r)"
    for c
  proof -
    have none: "c \<notin> operands h n" if "n \<in> set (rev ys)" for n
      using that c ys(2,3) by auto
    from fa none ops_a have ca: "h1 c = a1 c" by metis
    from fb none ops_b have cb: "h2 c = shift a1 d c" by metis
    from c obtain vc where vc: "h c = Some vc" "grad vc = 0" by (auto simp: gradient_def)
    from same_shape_lookup [OF shape vc(1)] obtain vc1 where vc1: "h1 c = Some vc1" by blast
    from c vc vc1 d(3) have "d c = grad vc1" by simp
    moreover from ca vc1 have "a1 c = Some vc1" by simp
    ultimately show ?thesis using cb vc1 by (simp add: gradient_def shift_apply)
  qed
  with run2 show ?thesis by blast
qed

section \<open>The graphs the operations build\<close>

text \<open>
  The empty heap is a DAG, and \<open>new_value\<close> and every operation, given a DAG, operands
  in it and a fresh address other than \<open>NULL\<close>, return a DAG again (\<open>my_pow\<close> unless the
  power is no real number): whatever a caller builds with the operations alone is a
  DAG.
\<close>

lemma dag_new_node:
  assumes "dag h rk" and "set cs \<subseteq> dom h" and "p \<notin> dom h" and "p \<noteq> 0"
  shows "\<exists>rk'. dag (h(p \<mapsto> \<lparr>data = d, grad = g, children = cs, backward_fn = f\<rparr>)) rk'"
proof -
  let ?h = "h(p \<mapsto> \<lparr>data = d, grad = g, children = cs, backward_fn = f\<rparr>)"
  let ?rk = "rk(p := Suc (Max (insert 0 (rk ` set cs))))"
  from assms(1) have closed: "closed_heap h"
    and rank: "\<And>q node c. h q = Some node \<Longrightarrow> c \<in> set (children node) \<Longrightarrow> rk c < rk q"
    unfolding dag_def by blast+
  have p_cs: "p \<notin> set cs" using assms(2,3) by blast
  have "closed_heap ?h"
    unfolding closed_heap_def
  proof (intro conjI allI impI)
    show "?h 0 = None" using closed assms(4) by (simp add: closed_heap_def)
  next
    fix q node assume q: "?h q = Some node"
    show "set (children node) \<subseteq> dom ?h"
    proof (cases "q = p")
      case True
      with q assms(2) show ?thesis by auto
    next
      case False
      with q have "h q = Some node" by simp
      with closed have "set (children node) \<subseteq> dom h" unfolding closed_heap_def by blast
      then show ?thesis by auto
    qed
  qed
  moreover have "?rk c < ?rk q" if q: "?h q = Some node" and c: "c \<in> set (children node)" for q node c
  proof (cases "q = p")
    case True
    with q have "children node = cs" by auto
    with c p_cs have "c \<noteq> p" "rk c \<in> insert 0 (rk ` set cs)" by auto
    then have "rk c \<le> Max (insert 0 (rk ` set cs))" by (intro Max_ge) auto
    with True \<open>c \<noteq> p\<close> show ?thesis by simp
  next
    case False
    with q have hq: "h q = Some node" by simp
    with closed c have "c \<in> dom h" unfolding closed_heap_def by blast
    with assms(3) have "c \<noteq> p" by blast
    with False rank [OF hq c] show ?thesis by simp
  qed
  ultimately have "dag ?h ?rk" unfolding dag_def by blast
  then show ?thesis by blast
qed

lemma operations_build_dags:
  assumes "dag h rk" and "h a = Some va" and "h b = Some vb" and "p \<notin> dom h" and "p \<noteq> 0"
  shows "\<exists>h' rk'. new_value (Some p) True h d [] = Inr (p, h') \<and> dag h' rk'"
    and "\<exists>h' rk'. add (Some p) True h a b = Inr (p, h') \<and> dag h' rk'"
    and "\<exists>h' rk'. mul (Some p) True h a b = Inr (p, h') \<and> dag h' rk'"
    and "(\<exists>h' rk'. my_pow (Some p) True h a b = Inr (p, h') \<and> dag h' rk') \<or>
         my_pow (Some p) True h a b = Inl NotFinite"
    and "\<exists>h' rk'. my_exp (Some p) True h a = Inr (p, h') \<and> dag h' rk'"
    and "\<exists>h' rk'. relu (Some p) True h a = Inr (p, h') \<and> dag h' rk'"
proof -
  have ab: "set [a, b] \<subseteq> dom h" "set [a] \<subseteq> dom h" "set [] \<subseteq> dom h" using assms(2,3) by auto
  note node = dag_new_node [OF assms(1) _ assms(4,5)]
  show "\<exists>h' rk'. new_value (Some p) True h d [] = Inr (p, h') \<and> dag h' rk'"
    using node [OF ab(3), of d 0 None] by (simp add: new_value_def)
  show "\<exists>h' rk'. add (Some p) True h a b = Inr (p, h') \<and> dag h' rk'"
    using node [OF ab(1), of "data va + data vb" 0 "Some Backward_add"] assms(2,3)
    by (simp add: build_defs)
  show "\<exists>h' rk'. mul (Some p) True h a b = Inr (p, h') \<and> dag h' rk'"
    using node [OF ab(1), of "data va * data vb" 0 "Some Backward_mul"] assms(2,3)
    by (simp add: build_defs)
  show "(\<exists>h' rk'. my_pow (Some p) True h a b = Inr (p, h') \<and> dag h' rk') \<or>
        my_pow (Some p) True h a b = Inl NotFinite"
  proof (cases "c_pow (data va) (data vb)")
    case None
    with assms(2,3) show ?thesis by (simp add: build_defs)
  next
    case (Some w)
    with node [OF ab(1), of w 0 "Some Backward_pow"] assms(2,3) show ?thesis
      by (simp add: build_defs)
  qed
  show "\<exists>h' rk'. my_exp (Some p) True h a = Inr (p, h') \<and> dag h' rk'"
    using node [OF ab(2), of "exp (data va)" 0 "Some Backward_exp"] assms(2)
    by (simp add: build_defs)
  show "\<exists>h' rk'. relu (Some p) True h a = Inr (p, h') \<and> dag h' rk'"
    using node [OF ab(2), of "if data va > 0 then data va else 0" 0 "Some Backward_relu"] assms(2)
    by (simp add: build_defs)
qed

lemma empty_heap_dag: "dag Map.empty rk"
  by (simp add: dag_def closed_heap_def)

section \<open>Facts about the graphs of the examples\<close>

lemmas run_defs = root_data_def backward_on_def backward_again_def gradient_in_def topo_on_def
  writes_on_def gradient_def backward_def

lemma same_shape_fields:
  assumes "same_shape h k"
  shows "map_option data (k p) = map_option data (h p) \<and>
         map_option children (k p) = map_option children (h p) \<and>
         map_option backward_fn (k p) = map_option backward_fn (h p)"
proof (cases "h p")
  case None
  with same_shape_None [OF assms] show ?thesis by simp
next
  case (Some node)
  with same_shape_lookup [OF assms Some] show ?thesis by auto
qed

lemma reach_operand: "c \<in> operands h r \<Longrightarrow> c \<in> reach h r"
  using operands_reach [of r h r c] reach.root by blast

lemma backward_root_gradient:
  assumes "backward fuel h r = Some (Inr h1)" and "dag h rk"
  shows "gradient h1 r = Some 1"
proof -
  from backward_changes [OF assms(1)] obtain node where node: "h r = Some node"
    and ch: "\<forall>q. h1 q \<noteq> (h(r \<mapsto> node\<lparr>grad := 1\<rparr>)) q \<longrightarrow> (\<exists>n \<in> reach h r. q \<in> operands h n)"
    by blast
  have "r \<notin> operands h n" if "n \<in> reach h r" for n
  proof
    assume "r \<in> operands h n"
    then obtain vn where "h n = Some vn" "r \<in> set (children vn)"
      by (auto simp: operands_def split: option.splits)
    with assms(2) have "rk r < rk n" unfolding dag_def by blast
    with dag_reach_rank [OF assms(2) that] show False by simp
  qed
  with ch have "h1 r = (h(r \<mapsto> node\<lparr>grad := 1\<rparr>)) r" by blast
  then show ?thesis by (simp add: gradient_def)
qed

lemma cycle_heap_closed: "closed_heap cycle_heap"
  by (auto simp: closed_heap_def cycle_heap_def split: if_splits)

lemma cycle_heap_cyclic: "cyclic_from cycle_heap 4096"
proof -
  have "4096 \<in> reach cycle_heap 4144"
    by (rule reach_operand) (simp add: operands_def cycle_heap_def)
  moreover have "4144 \<in> operands cycle_heap 4096"
    by (simp add: operands_def cycle_heap_def)
  ultimately show ?thesis unfolding cyclic_from_def using reach.root by blast
qed

lemma shared_heap_dag: "dag shared_heap (\<lambda>p. if p = 4144 then 1 else 0)"
  by (auto simp: dag_def closed_heap_def shared_heap_def split: if_splits)

lemma used_heap_dag: "dag used_heap (\<lambda>p. if p = 4144 then 1 else 0)"
  by (auto simp: dag_def closed_heap_def used_heap_def split: if_splits)

lemma shared_graph_heap: "shared_graph Map.empty 4096 4144 = Inr (4144, shared_heap)"
  by (simp add: shared_graph_def build_defs shared_heap_def)

lemma chain_graph_heap: "chain_graph 4096 4144 4192 = Inr (4192, chain_heap)"
  by (simp add: chain_graph_def build_defs chain_heap_def)

lemma chain_heap_dag:
  "dag chain_heap (\<lambda>p. if p = 4192 then 2 else if p = 4144 then 1 else 0)"
  by (auto simp: dag_def closed_heap_def chain_heap_def split: if_splits)

lemma chain_heap_pow_defined: "pow_defined chain_heap"
  by (auto simp: pow_defined_def chain_heap_def split: if_splits)

lemma cycle_heap_pow_defined: "pow_defined cycle_heap"
  by (auto simp: pow_defined_def cycle_heap_def split: if_splits)

section \<open>The operator rules\<close>

text \<open>
  \<open>_backward_pow\<close> on a node whose first two operands are \<open>b\<close> (base) and \<open>e\<close>
  (exponent). Where \<open>pow(b.data, e.data - 1)\<close> is a real number \<open>w\<close>, the gradient of
  \<open>b\<close> grows by \<open>e.data * w * out.grad\<close> and no other cell of the heap changes; in
  particular the exponent, when it is another node than the base, keeps its gradient.
  Where it is not (base 0 with an exponent below 1, a negative base with a fractional
  exponent), the gradient written is an infinity or NaN.
\<close>

lemma backward_pow_rule:
  assumes "h out = Some vo" and "children vo = b # e # rest"
    and "h b = Some vb" and "h e = Some ve"
  shows "c_pow (data vb) (data ve - 1) = Some w \<Longrightarrow>
           \<exists>h'. call_backward Backward_pow h out = Inr h' \<and>
             gradient h' b = Some (grad vb + data ve * w * grad vo) \<and>
             (e \<noteq> b \<longrightarrow> gradient h' e = Some (grad ve)) \<and>
             (\<forall>p. p \<noteq> b \<longrightarrow> h' p = h p) \<and>
             map_option data (h' b) = Some (data vb)"
    and "c_pow (data vb) (data ve - 1) = None \<Longrightarrow>
           call_backward Backward_pow h out = Inl NotFinite"
  using assms by (simp_all add: rule_defs gradient_def)

lemma c_pow_values:
  "c_pow (-2) 2 = Some 4" "c_pow (-2) 1 = Some (-2)" "c_pow 0 0 = Some 1"
  "c_pow 0 (-1) = None" "c_pow (-2) (1 / 2) = None"
  by (simp_all add: c_pow_def)

text \<open>
  C3. In a backward pass the rule of a Power node runs only if the sorter has emitted the
  node. For \<open>p = my_pow(c, e)\<close> with \<open>c = -2.0\<close>, \<open>e = 2.0\<close> and \<open>f = relu(p)\<close>, with
  \<open>p\<close> at 4192 and \<open>f\<close> at 4592 (both in slot 92 of \<open>visited\<close>), the sorter emits \<open>f\<close>
  alone: after \<open>backward(f)\<close> the Power node has gradient 1 and its base still has
  gradient 0, not \<open>2 * (-2) * 1 = -4\<close>. With \<open>f\<close> at 4240 the base gets -4 and the
  exponent 0.
\<close>

theorem pow_rule_skipped_on_shared_slot:
  "root_data (pow_graph 4096 4144 4192 4592) = Some 4 \<and>
   topo_on 4 (pow_graph 4096 4144 4192 4592) = Some [4592] \<and>
   map (gradient_in (backward_on 4 (pow_graph 4096 4144 4192 4592))) [4192, 4096, 4144] =
     [Some 1, Some 0, Some 0] \<and>
   topo_on 4 (pow_graph 4096 4144 4192 4240) = Some [4096, 4144, 4192, 4240] \<and>
   map (gradient_in (backward_on 4 (pow_graph 4096 4144 4192 4240))) [4192, 4096, 4144] =
     [Some 1, Some (-4), Some 0]"
  by (simp add: pow_graph_def build_defs run_defs rule_defs build_topo_numeral c_pow_def)





section \<open>Allocation failure\<close>

text \<open>
  C4, as the code has it. When \<open>malloc\<close> returns \<open>NULL\<close>, for the cell or for the array
  of children, \<open>new_value\<close> ends the process with \<open>exit(1)\<close>; so does every operation,
  each of which builds its node with \<open>new_value\<close>. Nothing is returned to the caller: no
  node and no heap.
\<close>

theorem allocation_failure_exits:
  "new_value None arr h d cs = Inl (Exit 1) \<and>
   (cs \<noteq> [] \<longrightarrow> new_value (Some p) False h d cs = Inl (Exit 1)) \<and>
   (h a = Some va \<and> h b = Some vb \<longrightarrow>
      add None arr h a b = Inl (Exit 1) \<and> add (Some p) False h a b = Inl (Exit 1) \<and>
      mul None arr h a b = Inl (Exit 1) \<and> mul (Some p) False h a b = Inl (Exit 1) \<and>
      my_pow None arr h a b = Inl (Exit 1) \<and> my_pow (Some p) False h a b = Inl (Exit 1) \<and>
      my_exp None arr h a = Inl (Exit 1) \<and> my_exp (Some p) False h a = Inl (Exit 1) \<and>
      relu None arr h a = Inl (Exit 1) \<and> relu (Some p) False h a = Inl (Exit 1))"
  by (simp add: build_defs split: option.splits)

theorem allocation_failure_exits_witness:
  "pow_cell_heap 4192 \<noteq> None \<and> pow_cell_heap 4320 \<noteq> None \<and>
   add None True pow_cell_heap 4192 4320 = Inl (Exit 1) \<and>
   relu (Some 4496) False pow_cell_heap 4192 = Inl (Exit 1) \<and>
   new_value (Some 4496) False pow_cell_heap 7 [4192] = Inl (Exit 1)"
  using allocation_failure_exits [of True pow_cell_heap 7 "[4192]" 4496 4192
    "\<lparr>data = -2, grad = 0, children = [], backward_fn = None\<rparr>" 4320
    "\<lparr>data = 2, grad = 0, children = [], backward_fn = None\<rparr>"]
  by (simp add: pow_cell_heap_def)

text \<open>
  The claim as the spec states it fails: the failure is not returned to the caller.
\<close>

theorem new_value_exit_counterexample:
  "new_value None True Map.empty 2 [] = Inl (Exit 1)"
  by (simp add: new_value_def)

section \<open>The sorter and the visited table\<close>

text \<open>
  C1. \<open>build_topo\<close> keys its visited check by \<open>(long)v % 100\<close>, not by the node. Two
  nodes whose addresses agree modulo 100 count as one: in the chain \<open>f = relu(m)\<close>,
  \<open>m = relu(x)\<close> with \<open>m\<close> at 4144 and \<open>f\<close> at 4544 the sorter emits \<open>f\<close> alone, so
  \<open>m\<close> and \<open>x\<close>, both reachable, are skipped, the rule of \<open>m\<close> never runs and \<open>x\<close> is
  left with gradient 0. With \<open>f\<close> at 4192 the output is \<open>x\<close>, \<open>m\<close>, \<open>f\<close> and the
  gradient of \<open>x\<close> is 1.
\<close>

theorem sorter_skips_node_sharing_a_slot:
  "topo_on 3 (chain_graph 4096 4144 4544) = Some [4544] \<and>
   gradient_in (backward_on 3 (chain_graph 4096 4144 4544)) 4096 = Some 0 \<and>
   topo_on 3 (chain_graph 4096 4144 4192) = Some [4096, 4144, 4192] \<and>
   gradient_in (backward_on 3 (chain_graph 4096 4144 4192)) 4096 = Some 1"
  by (simp add: chain_graph_def build_defs run_defs rule_defs build_topo_numeral)

text \<open>
  C2. The graph of \<open>main\<close> has value 10 at its root wherever it is allocated. The
  gradients depend on the addresses: when the root \<open>f\<close> (at 4848) and its operand (at
  4448) share a slot of \<open>visited\<close>, \<open>backward(f)\<close> leaves the gradients of \<open>a\<close>, \<open>b\<close>,
  \<open>c\<close> and \<open>e\<close> at 0.
\<close>

theorem demo_graph_gradients_lost_on_shared_slot:
  "root_data (demo_graph 4096 4144 4192 4240 4320 4368 4448 4848) = Some 10 \<and>
   map (gradient_in (backward_on 5 (demo_graph 4096 4144 4192 4240 4320 4368 4448 4848)))
     [4096, 4144, 4192, 4320] = [Some 0, Some 0, Some 0, Some 0]"
  by (simp add: demo_graph_def build_defs run_defs rule_defs build_topo_numeral c_pow_def)

text \<open>
  The defect is the hashed visited check alone. On a DAG whose reachable nodes fall into
  pairwise different slots of \<open>visited\<close> (so at most 100 nodes), \<open>build_topo\<close> does
  what the spec asks of the sorter: it emits exactly the nodes reachable from the root,
  each once, every operand before the node that consumes it.
\<close>

lemma sorter_without_collisions:
  assumes "dag h rk" and "v \<in> dom h" and "inj_on (\<lambda>p. p mod 100) (reach h v)" and "100 < n"
  shows "\<exists>topo vis. build_topo n h v ([], \<lambda>i. 0) = Some (Inr (topo, vis)) \<and>
           distinct topo \<and> set topo = reach h v \<and> operands_first h topo"
proof -
  from assms(1) have closed: "closed_heap h" by (simp add: dag_def)
  from build_topo_total [OF closed assms(2,4)] obtain s' where
    run: "build_topo n h v ([], \<lambda>i. 0) = Some (Inr s')" by blast
  have cl: "\<forall>p \<in> reach h v. operands h p \<subseteq> reach h v"
    using operands_reach by blast
  have init: "sorting h (reach h v) {} ([], \<lambda>i. 0)"
    by (simp add: sorting_def operands_first_def)
  from sorter_step [OF assms(1,3) cl run reach.root init]
  have s: "sorting h (reach h v) {} s'" and v: "v \<in> set (fst s')" by simp_all
  then have sub: "set (fst s') \<subseteq> reach h v" and of: "operands_first h (fst s')"
    and d: "distinct (fst s')" by (simp_all add: sorting_def)
  have "p \<in> set (fst s')" if "p \<in> reach h v" for p
    using that
  proof (induction rule: reach.induct)
    case root
    then show ?case by (rule v)
  next
    case (step p node c)
    then have "c \<in> operands h p" by (simp add: operands_def)
    with operands_first_closed [OF of step.IH] show ?case by blast
  qed
  with sub have "set (fst s') = reach h v" by blast
  with run d of show ?thesis by (cases s') auto
qed

text \<open>
  Whatever the graph, a returning \<open>build_topo\<close> has emitted at most 100 nodes, one for
  each slot of \<open>visited\<close>: of a graph with more than 100 reachable nodes some are skipped
  at every layout.
\<close>

lemma sorter_capacity:
  assumes "build_topo n h v ([], \<lambda>i. 0) = Some (Inr s)"
  shows "length (fst s) \<le> 100 \<and> card (set (fst s)) \<le> 100"
proof -
  from build_topo_emitted [OF assms] have "length (fst s) \<le> 100"
    by (auto simp: emitted_def free_slots_init)
  moreover have "card (set (fst s)) \<le> length (fst s)" by (rule card_length)
  ultimately show ?thesis by simp
qed

text \<open>
  Likewise the graph of \<open>main\<close>, allocated at addresses that fall into eight different
  slots, gets the gradients the spec states.
\<close>

lemma demo_graph_gradients_distinct_slots:
  assumes "distinct (map (\<lambda>p. p mod 100) [pa, pb, pc, pm, pe, pp, ps, pf])"
  shows "root_data (demo_graph pa pb pc pm pe pp ps pf) = Some 10 \<and>
   map (gradient_in (backward_on 5 (demo_graph pa pb pc pm pe pp ps pf)))
     [pa, pb, pc, pe] = [Some 3, Some 2, Some (-4), Some 0]"
proof -
  from assms have d: "distinct [pa, pb, pc, pm, pe, pp, ps, pf]"
    using distinct_map by blast
  from assms have m: "pa mod 100 \<noteq> pb mod 100" "pa mod 100 \<noteq> pc mod 100" "pa mod 100 \<noteq> pm mod 100"
    "pa mod 100 \<noteq> pe mod 100" "pa mod 100 \<noteq> pp mod 100" "pa mod 100 \<noteq> ps mod 100" "pa mod 100 \<noteq> pf mod 100"
    "pb mod 100 \<noteq> pc mod 100" "pb mod 100 \<noteq> pm mod 100" "pb mod 100 \<noteq> pe mod 100" "pb mod 100 \<noteq> pp mod 100"
    "pb mod 100 \<noteq> ps mod 100" "pb mod 100 \<noteq> pf mod 100"
    "pc mod 100 \<noteq> pm mod 100" "pc mod 100 \<noteq> pe mod 100" "pc mod 100 \<noteq> pp mod 100" "pc mod 100 \<noteq> ps mod 100"
    "pc mod 100 \<noteq> pf mod 100"
    "pm mod 100 \<noteq> pe mod 100" "pm mod 100 \<noteq> pp mod 100" "pm mod 100 \<noteq> ps mod 100" "pm mod 100 \<noteq> pf mod 100"
    "pe mod 100 \<noteq> pp mod 100" "pe mod 100 \<noteq> ps mod 100" "pe mod 100 \<noteq> pf mod 100"
    "pp mod 100 \<noteq> ps mod 100" "pp mod 100 \<noteq> pf mod 100"
    "ps mod 100 \<noteq> pf mod 100"
    by simp_all
  from d have n: "pa \<noteq> pb" "pa \<noteq> pc" "pa \<noteq> pm" "pa \<noteq> pe" "pa \<noteq> pp" "pa \<noteq> ps" "pa \<noteq> pf"
    "pb \<noteq> pc" "pb \<noteq> pm" "pb \<noteq> pe" "pb \<noteq> pp" "pb \<noteq> ps" "pb \<noteq> pf"
    "pc \<noteq> pm" "pc \<noteq> pe" "pc \<noteq> pp" "pc \<noteq> ps" "pc \<noteq> pf"
    "pm \<noteq> pe" "pm \<noteq> pp" "pm \<noteq> ps" "pm \<noteq> pf"
    "pe \<noteq> pp" "pe \<noteq> ps" "pe \<noteq> pf" "pp \<noteq> ps" "pp \<noteq> pf" "ps \<noteq> pf"
    by simp_all
  note ms = m m [symmetric] n n [symmetric]
  show ?thesis
    by (simp add: demo_graph_def build_defs run_defs rule_defs build_topo_numeral c_pow_def ms)
qed

section \<open>Cyclic graphs\<close>

text \<open>
  C5, as the code has it. No traversal detects a cycle or reports one. On a closed heap
  with a cycle below \<open>v\<close>, \<open>build_topo\<close>, and \<open>backward\<close> with it, returns normally at
  any depth bound above 100 (the visited table stops the recursion), and
  \<open>zero_grad_graph\<close>, which has no such table, does not return at any depth: the
  recursion is unbounded. What \<open>backward\<close> returns with is a heap of real numbers when
  every \<open>_backward_pow\<close> in the heap computes one, and in any case a heap or one that
  holds an infinity or NaN (\<open>NotFinite\<close>): no fault and no error value.
\<close>

theorem cycle_not_detected:
  assumes "closed_heap h" and "v \<in> dom h" and "cyclic_from h v"
  shows "(\<forall>n. 100 < n \<longrightarrow>
            (\<exists>s. build_topo n h v ([], \<lambda>i. 0) = Some (Inr s)) \<and>
            ((\<exists>h'. backward n h v = Some (Inr h')) \<or> backward n h v = Some (Inl NotFinite)) \<and>
            (pow_defined h \<longrightarrow> (\<exists>h'. backward n h v = Some (Inr h')))) \<and>
         (\<forall>n ws. zero_grad_graph n v (h, ws) = None)"
proof (intro conjI allI impI)
  fix n :: nat assume n: "100 < n"
  with assms(1,2) show "\<exists>s. build_topo n h v ([], \<lambda>i. 0) = Some (Inr s)"
    by (rule build_topo_total)
  from assms(1,2) n
  show "(\<exists>h'. backward n h v = Some (Inr h')) \<or> backward n h v = Some (Inl NotFinite)"
    by (rule backward_total)
  assume "pow_defined h"
  with assms(1,2) n show "\<exists>h'. backward n h v = Some (Inr h')"
    by (rule backward_total_finite)
next
  fix n ws
  show "zero_grad_graph n v (h, ws) = None"
    using zero_grad_graph_diverges [OF assms(1,3,2), of "(h, ws)" n] by (simp add: same_shape_refl)
qed

theorem cycle_not_detected_witness:
  "closed_heap cycle_heap \<and> 4096 \<in> dom cycle_heap \<and> cyclic_from cycle_heap 4096 \<and>
   pow_defined cycle_heap \<and>
   (\<exists>s. build_topo 101 cycle_heap 4096 ([], \<lambda>i. 0) = Some (Inr s)) \<and>
   (\<exists>h'. backward 101 cycle_heap 4096 = Some (Inr h')) \<and>
   zero_grad_graph 1000 4096 (cycle_heap, []) = None"
proof -
  have d: "4096 \<in> dom cycle_heap" by (simp add: cycle_heap_def)
  note t = cycle_not_detected [OF cycle_heap_closed d cycle_heap_cyclic]
  from t [THEN conjunct1, THEN spec, of 101] cycle_heap_pow_defined
  have "(\<exists>s. build_topo 101 cycle_heap 4096 ([], \<lambda>i. 0) = Some (Inr s)) \<and>
        (\<exists>h'. backward 101 cycle_heap 4096 = Some (Inr h'))" by simp
  moreover from t have "zero_grad_graph 1000 4096 (cycle_heap, []) = None" by simp
  ultimately show ?thesis
    using cycle_heap_closed d cycle_heap_cyclic cycle_heap_pow_defined by simp
qed

text \<open>
  The claim as the spec states it fails on two nodes that are each other's operand:
  \<open>build_topo\<close> returns a list and no error, and \<open>zero_grad_graph\<close> has not returned at
  depth 9.
\<close>

theorem cycle_counterexample:
  "build_topo 3 cycle_heap 4096 ([], \<lambda>i. 0) = Some (Inr ([4144, 4096], (\<lambda>i. 0)(96 := 1, 44 := 1))) \<and>
   zero_grad_graph 9 4096 (cycle_heap, []) = None"
  by (simp add: cycle_heap_def build_topo_numeral zero_grad_graph_numeral)

section \<open>Gradient reset\<close>

text \<open>
  C6, as the code has it. On a DAG, \<open>zero_grad_graph(r)\<close> returns (at any depth bound
  above the rank of \<open>r\<close>), leaves every node reachable from \<open>r\<close> with gradient 0,
  changes no other cell and no other field, and assigns to exactly the reachable nodes:
  to each as many times as there are operand paths from \<open>r\<close> to it.
\<close>

theorem zero_grad_graph_zeroes_reachable:
  assumes "dag h rk" and "r \<in> dom h" and "rk r < n"
  shows "\<exists>h' ws. zero_grad_graph n r (h, []) = Some (Inr (h', ws)) \<and>
           same_shape h h' \<and>
           (\<forall>p \<in> reach h r. gradient h' p = Some 0) \<and>
           (\<forall>p. p \<notin> reach h r \<longrightarrow> h' p = h p) \<and>
           set ws = reach h r \<and>
           (\<forall>p. count_list ws p = npaths n h r p)"
proof -
  from assms(1) have closed: "closed_heap h" by (simp add: dag_def)
  from zero_grad_graph_dag [OF assms(1) _ assms(3,2), of "(h, [])"]
  obtain s' where run: "zero_grad_graph n r (h, []) = Some (Inr s')"
    and z: "zeroed h (reach h r) (h, []) s'"
    by (auto simp: same_shape_refl)
  from zero_grad_graph_paths [OF closed run assms(2)]
  have "\<forall>p. count_list (snd s') p = npaths n h r p"
    by (auto simp: same_shape_refl)
  with run z show ?thesis unfolding zeroed_def by (cases s') auto
qed

theorem zero_grad_graph_zeroes_reachable_witness:
  "dag used_heap (\<lambda>p. if p = 4144 then 1 else 0) \<and> 4144 \<in> dom used_heap \<and>
   (\<exists>h' ws. zero_grad_graph 2 4144 (used_heap, []) = Some (Inr (h', ws)) \<and>
      gradient h' 4096 = Some 0 \<and> gradient h' 4144 = Some 0 \<and>
      set ws = reach used_heap 4144 \<and> count_list ws 4096 = 2)"
proof -
  have d: "4144 \<in> dom used_heap" by (simp add: used_heap_def)
  have x: "4096 \<in> reach used_heap 4144"
    by (rule reach_operand) (simp add: operands_def used_heap_def)
  have n: "npaths 2 used_heap 4144 4096 = 2"
    by (simp add: npaths_numeral used_heap_def)
  from zero_grad_graph_zeroes_reachable [OF used_heap_dag d, of 2]
  obtain h' ws where "zero_grad_graph 2 4144 (used_heap, []) = Some (Inr (h', ws))"
    and "\<forall>p \<in> reach used_heap 4144. gradient h' p = Some 0"
    and "set ws = reach used_heap 4144"
    and "\<forall>p. count_list ws p = npaths 2 used_heap 4144 p" by auto
  with x n reach.root [of 4144 used_heap] show ?thesis using used_heap_dag d by metis
qed

text \<open>
  The claim as the spec states it fails: there is no deduplication. For \<open>y = add(x, x)\<close>
  the assignments are to \<open>y\<close>, \<open>x\<close>, \<open>x\<close>: the shared node is visited twice.
\<close>

theorem shared_node_zeroed_twice:
  "writes_on 2 (shared_graph Map.empty 4096 4144) = Some [4144, 4096, 4096]"
  by (simp add: shared_graph_def build_defs run_defs zero_grad_graph_numeral)

text \<open>
  C7. On a DAG with any gradients, \<open>zero_grad_graph(r1)\<close> followed by
  \<open>zero_grad_graph(r2)\<close> returns both times without error and leaves every node reachable
  from \<open>r1\<close> or \<open>r2\<close> with gradient 0; when \<open>r2\<close> is \<open>r1\<close> the second call changes
  nothing.
\<close>

theorem zero_gradients_idempotent:
  assumes "dag h rk" and "r1 \<in> dom h" and "r2 \<in> dom h"
  shows "\<exists>h1 w1 h2 w2.
           zero_grad_graph (Suc (rk r1)) r1 (h, []) = Some (Inr (h1, w1)) \<and>
           zero_grad_graph (Suc (rk r2)) r2 (h1, []) = Some (Inr (h2, w2)) \<and>
           (\<forall>p \<in> reach h r1 \<union> reach h r2. gradient h2 p = Some 0) \<and>
           (r2 = r1 \<longrightarrow> h2 = h1)"
proof -
  from zero_grad_graph_dag [OF assms(1) _ _ assms(2), of "(h, [])" "Suc (rk r1)"]
  obtain s1 where s1: "zero_grad_graph (Suc (rk r1)) r1 (h, []) = Some (Inr s1)"
    "zeroed h (reach h r1) (h, []) s1"
    by (auto simp: same_shape_refl)
  then have sh: "same_shape h (fst (fst s1, []::addr list))" by (simp add: zeroed_def)
  from zero_grad_graph_dag [OF assms(1) sh _ assms(3), of "Suc (rk r2)"]
  obtain s2 where s2: "zero_grad_graph (Suc (rk r2)) r2 (fst s1, []) = Some (Inr s2)"
    "zeroed h (reach h r2) (fst s1, []) s2"
    by auto
  have z1: "\<forall>p \<in> reach h r1. gradient (fst s1) p = Some 0"
    using s1(2) by (simp add: zeroed_def)
  have keep: "\<forall>p. gradient (fst s1) p = Some 0 \<longrightarrow> fst s2 p = fst s1 p"
    and z2: "\<forall>p \<in> reach h r2. gradient (fst s2) p = Some 0"
    and out: "\<forall>p. p \<notin> reach h r2 \<longrightarrow> fst s2 p = fst s1 p"
    using s2(2) by (simp_all add: zeroed_def)
  have all0: "gradient (fst s2) p = Some 0" if "p \<in> reach h r1 \<union> reach h r2" for p
  proof (cases "p \<in> reach h r2")
    case True
    with z2 show ?thesis by blast
  next
    case False
    with that z1 have "gradient (fst s1) p = Some 0" by blast
    with keep show ?thesis by (simp add: gradient_def)
  qed
  have same: "fst s2 = fst s1" if "r2 = r1"
  proof (rule ext)
    fix p show "fst s2 p = fst s1 p"
      using that z1 keep out by (cases "p \<in> reach h r1") auto
  qed
  from s1(1) s2(1) all0 same show ?thesis
    by (cases s1, cases s2) auto
qed

theorem zero_gradients_idempotent_witness:
  "dag used_heap (\<lambda>p. if p = 4144 then 1 else 0) \<and>
   (\<exists>h1 w1 h2 w2.
      zero_grad_graph 2 4144 (used_heap, []) = Some (Inr (h1, w1)) \<and>
      zero_grad_graph 1 4096 (h1, []) = Some (Inr (h2, w2)) \<and>
      gradient h2 4096 = Some 0 \<and> gradient h2 4144 = Some 0)"
proof -
  have d: "4144 \<in> dom used_heap" "4096 \<in> dom used_heap" by (simp_all add: used_heap_def)
  from zero_gradients_idempotent [OF used_heap_dag d]
  obtain h1 w1 h2 w2 where "zero_grad_graph 2 4144 (used_heap, []) = Some (Inr (h1, w1))"
    and "zero_grad_graph 1 4096 (h1, []) = Some (Inr (h2, w2))"
    and "\<forall>p \<in> reach used_heap 4144 \<union> reach used_heap 4096. gradient h2 p = Some 0"
    by (auto simp: numeral_2_eq_2)
  moreover have "4096 \<in> reach used_heap 4096" "4144 \<in> reach used_heap 4144"
    by (rule reach.root)+
  ultimately show ?thesis using used_heap_dag by blast
qed

section \<open>What backward writes\<close>

text \<open>
  C10, as the code has it. On a closed heap \<open>backward(r)\<close> returns, at any depth bound
  above 100: with a heap of real numbers when every \<open>_backward_pow\<close> in the heap computes
  one. A \<open>backward(r)\<close> that has returned the heap \<open>h1\<close>
  \<^item> has left the value, the operands and the rule of every node as they were, and every
    cell not reachable from \<open>r\<close> as it was;
  \<^item> has assigned to the gradient of \<open>r\<close>: whatever that gradient was before the call,
    the outcome is the same, and on a DAG the gradient of \<open>r\<close> is 1 after it;
  \<^item> has added to every other gradient: for a node \<open>p\<close> other than \<open>r\<close> that is not
    reachable from one of its own operands (every node of a DAG is such a node), with
    \<open>x\<close> more in the gradient of \<open>p\<close> before the call, the call returns as well, the
    gradient of \<open>p\<close> after it is \<open>x\<close> more too, and only nodes below \<open>p\<close> can differ
    otherwise; with \<open>d q\<close> more in the gradient of every node \<open>q\<close>, for \<open>d\<close> that is 0
    at the root and at every node with a rule, every gradient after the call is \<open>d q\<close>
    more;
  \<^item> run a second time without reset, returns again and leaves twice the gradient of the
    first pass at every node other than \<open>r\<close> whose gradient was 0 before the first pass
    and which no node reachable from \<open>r\<close> but \<open>r\<close> itself has as an operand.
\<close>

theorem backward_touches_gradients_only:
  "(closed_heap h \<and> r \<in> dom h \<and> 100 < fuel \<longrightarrow>
      ((\<exists>h1. backward fuel h r = Some (Inr h1)) \<or> backward fuel h r = Some (Inl NotFinite)) \<and>
      (pow_defined h \<longrightarrow> (\<exists>h1. backward fuel h r = Some (Inr h1)))) \<and>
   (\<forall>h1. backward fuel h r = Some (Inr h1) \<longrightarrow>
      (\<forall>p. map_option data (h1 p) = map_option data (h p) \<and>
           map_option children (h1 p) = map_option children (h p) \<and>
           map_option backward_fn (h1 p) = map_option backward_fn (h p)) \<and>
      (\<forall>p. p \<notin> reach h r \<longrightarrow> h1 p = h p) \<and>
      (\<forall>vr x. h r = Some vr \<longrightarrow> backward fuel (h(r \<mapsto> vr\<lparr>grad := x\<rparr>)) r = Some (Inr h1)) \<and>
      (dag h rk \<longrightarrow> gradient h1 r = Some 1) \<and>
      (\<forall>p x. p \<noteq> r \<and> (\<forall>n \<in> reach h p. p \<notin> operands h n) \<longrightarrow>
         (\<exists>h1'. backward fuel (shift h ((\<lambda>q. 0)(p := x))) r = Some (Inr h1') \<and>
            gradient h1' p = map_option (\<lambda>g. g + x) (gradient h1 p) \<and>
            (\<forall>q. q \<notin> reach h p \<longrightarrow> h1' q = h1 q))) \<and>
      (\<forall>d. d r = 0 \<and> (\<forall>n \<in> ruled h. d n = 0) \<longrightarrow>
           backward fuel (shift h d) r = Some (Inr (shift h1 d))) \<and>
      (\<exists>h2. backward fuel h1 r = Some (Inr h2) \<and>
         (\<forall>c. c \<noteq> r \<and> gradient h c = Some 0 \<and>
              (\<forall>n \<in> reach h r. c \<in> operands h n \<longrightarrow> n = r)
            \<longrightarrow> gradient h2 c = map_option (\<lambda>g. 2 * g) (gradient h1 c))))"
proof (intro conjI impI allI)
  assume a: "closed_heap h \<and> r \<in> dom h \<and> 100 < fuel"
  then show "(\<exists>h1. backward fuel h r = Some (Inr h1)) \<or> backward fuel h r = Some (Inl NotFinite)"
    using backward_total [of h r fuel] by blast
  assume "pow_defined h"
  with a show "\<exists>h1. backward fuel h r = Some (Inr h1)"
    using backward_total_finite [of h r fuel] by blast
next
  fix h1 p assume run: "backward fuel h r = Some (Inr h1)"
  from backward_frame [OF run] have "same_shape h h1" by simp
  from same_shape_fields [OF this, of p]
  show "map_option data (h1 p) = map_option data (h p)"
    and "map_option children (h1 p) = map_option children (h p)"
    and "map_option backward_fn (h1 p) = map_option backward_fn (h p)" by simp_all
next
  fix h1 p assume "backward fuel h r = Some (Inr h1)" and "p \<notin> reach h r"
  with backward_frame [of fuel h r h1] show "h1 p = h p" by blast
next
  fix h1 vr x assume "backward fuel h r = Some (Inr h1)" and "h r = Some vr"
  then show "backward fuel (h(r \<mapsto> vr\<lparr>grad := x\<rparr>)) r = Some (Inr h1)"
    using backward_root_stale [of h r vr fuel x] by simp
next
  fix h1 assume "backward fuel h r = Some (Inr h1)" and "dag h rk"
  then show "gradient h1 r = Some 1" by (rule backward_root_gradient)
next
  fix h1 p and x :: real
  assume run: "backward fuel h r = Some (Inr h1)"
    and "p \<noteq> r \<and> (\<forall>n \<in> reach h p. p \<notin> operands h n)"
  then have "\<forall>n \<in> reach h p. p \<notin> operands h n" "p \<noteq> r" by simp_all
  from backward_raise [OF this run, of x]
  show "\<exists>h1'. backward fuel (shift h ((\<lambda>q. 0)(p := x))) r = Some (Inr h1') \<and>
            gradient h1' p = map_option (\<lambda>g. g + x) (gradient h1 p) \<and>
            (\<forall>q. q \<notin> reach h p \<longrightarrow> h1' q = h1 q)" .
next
  fix h1 and d :: "addr \<Rightarrow> real"
  assume run: "backward fuel h r = Some (Inr h1)" and "d r = 0 \<and> (\<forall>n \<in> ruled h. d n = 0)"
  then have "backward fuel (shift h d) r =
      map_option (map_sum id (\<lambda>k. shift k d)) (backward fuel h r)"
    using backward_shift [of d r h fuel] by blast
  with run show "backward fuel (shift h d) r = Some (Inr (shift h1 d))" by simp
next
  fix h1 assume "backward fuel h r = Some (Inr h1)"
  then show "\<exists>h2. backward fuel h1 r = Some (Inr h2) \<and>
         (\<forall>c. c \<noteq> r \<and> gradient h c = Some 0 \<and>
              (\<forall>n \<in> reach h r. c \<in> operands h n \<longrightarrow> n = r)
            \<longrightarrow> gradient h2 c = map_option (\<lambda>g. 2 * g) (gradient h1 c))"
    by (rule second_pass_doubles)
qed

theorem backward_touches_gradients_only_witness:
  "closed_heap chain_heap \<and> pow_defined chain_heap \<and>
   dag chain_heap (\<lambda>p. if p = 4192 then 2 else if p = 4144 then 1 else 0) \<and>
   (\<exists>h1. backward 101 chain_heap 4192 = Some (Inr h1)) \<and>
   (\<exists>h1. backward 3 chain_heap 4192 = Some (Inr h1) \<and>
     map_option data (h1 4096) = map_option data (chain_heap 4096) \<and>
     gradient h1 4192 = Some 1 \<and> gradient h1 4144 = Some 1 \<and>
     gradient_in (backward 3 h1 4192) 4144 = Some 2 \<and>
     gradient_in (backward 3 (shift chain_heap ((\<lambda>q. 0)(4144 := 5))) 4192) 4144 = Some 6 \<and>
     backward 3 (shift chain_heap ((\<lambda>q. 0)(4096 := 3))) 4192 =
       Some (Inr (shift h1 ((\<lambda>q. 0)(4096 := 3)))) \<and>
     backward 3
       (chain_heap(4192 \<mapsto>
          \<lparr>data = 1, grad = 7, children = [4144], backward_fn = Some Backward_relu\<rparr>)) 4192 =
       Some (Inr h1))"
proof -
  let ?rk = "\<lambda>p::addr. if p = 4192 then 2 else if p = 4144 then (1::nat) else 0"
  have closed: "closed_heap chain_heap" using chain_heap_dag by (simp add: dag_def)
  have root: "4192 \<in> dom chain_heap" by (simp add: chain_heap_def)
  have returns: "\<exists>h1. backward 101 chain_heap 4192 = Some (Inr h1)"
    by (rule backward_touches_gradients_only [of chain_heap 4192 101, THEN conjunct1, THEN mp,
          THEN conjunct2, THEN mp])
      (simp_all add: closed root chain_heap_pow_defined)
  have ev: "gradient_in (backward 3 chain_heap 4192) 4144 = Some 1"
    by (simp add: gradient_in_def gradient_def backward_def chain_heap_def rule_defs
        build_topo_numeral)
  then obtain h1 where h1: "backward 3 chain_heap 4192 = Some (Inr h1)"
    by (auto simp: gradient_in_def split: option.splits sum.splits)
  with ev have g: "gradient h1 4144 = Some 1" by (simp add: gradient_in_def)
  note t = backward_touches_gradients_only [of chain_heap 4192 3 ?rk,
      THEN conjunct2, THEN spec, THEN mp, OF h1]
  note fields = t [THEN conjunct1, THEN spec, of 4096]
  note seed = t [THEN conjunct2, THEN conjunct2, THEN conjunct2, THEN conjunct1, THEN mp,
      OF chain_heap_dag]
  note raise = t [THEN conjunct2, THEN conjunct2, THEN conjunct2, THEN conjunct2,
      THEN conjunct1, THEN spec, THEN spec, of 4144 5, THEN mp]
  note leaves = t [THEN conjunct2, THEN conjunct2, THEN conjunct2, THEN conjunct2,
      THEN conjunct2, THEN conjunct1, THEN spec, of "(\<lambda>q. 0)(4096 := 3)", THEN mp]
  note stale = t [THEN conjunct2, THEN conjunct2, THEN conjunct1, THEN spec, THEN spec,
      of "\<lparr>data = 1, grad = 0, children = [4144], backward_fn = Some Backward_relu\<rparr>" 7,
      THEN mp]
  note twice = t [THEN conjunct2, THEN conjunct2, THEN conjunct2, THEN conjunct2,
      THEN conjunct2, THEN conjunct2]
  have r3: "backward 3 (shift chain_heap ((\<lambda>q. 0)(4096 := 3))) 4192 =
      Some (Inr (shift h1 ((\<lambda>q. 0)(4096 := 3))))"
    by (rule leaves) (auto simp: ruled_def chain_heap_def split: if_splits)
  have "backward 3
      (chain_heap(4192 \<mapsto>
         \<lparr>data = 1, grad = 0, children = [4144], backward_fn = Some Backward_relu\<rparr>
         \<lparr>grad := 7\<rparr>)) 4192 = Some (Inr h1)"
    by (rule stale) (simp add: chain_heap_def)
  then have r7: "backward 3
      (chain_heap(4192 \<mapsto>
         \<lparr>data = 1, grad = 7, children = [4144], backward_fn = Some Backward_relu\<rparr>)) 4192 =
      Some (Inr h1)" by simp
  have "\<exists>h1'. backward 3 (shift chain_heap ((\<lambda>q. 0)(4144 := 5))) 4192 = Some (Inr h1') \<and>
      gradient h1' 4144 = map_option (\<lambda>g. g + 5) (gradient h1 4144) \<and>
      (\<forall>q. q \<notin> reach chain_heap 4144 \<longrightarrow> h1' q = h1 q)"
    by (rule raise) (simp add: dag_acyclic [OF chain_heap_dag])
  with g have r6: "gradient_in (backward 3 (shift chain_heap ((\<lambda>q. 0)(4144 := 5))) 4192) 4144
      = Some 6"
    by (auto simp: gradient_in_def)
  have only: "\<forall>n \<in> reach chain_heap 4192. 4144 \<in> operands chain_heap n \<longrightarrow> n = 4192"
    by (auto simp: operands_def chain_heap_def split: if_splits)
  have zero: "gradient chain_heap 4144 = Some 0"
    by (simp add: gradient_def chain_heap_def)
  from twice obtain h2 where h2: "backward 3 h1 4192 = Some (Inr h2)"
    and dbl: "\<forall>c. c \<noteq> 4192 \<and> gradient chain_heap c = Some 0 \<and>
              (\<forall>n \<in> reach chain_heap 4192. c \<in> operands chain_heap n \<longrightarrow> n = 4192)
            \<longrightarrow> gradient h2 c = map_option (\<lambda>g. 2 * g) (gradient h1 c)"
    by blast
  from dbl [THEN spec, of 4144] only zero have "gradient h2 4144 = map_option (\<lambda>g. 2 * g) (gradient h1 4144)"
    by simp
  with g h2 have r2: "gradient_in (backward 3 h1 4192) 4144 = Some 2"
    by (simp add: gradient_in_def)
  from fields seed h1 g r2 r6 r3 r7 returns closed chain_heap_pow_defined chain_heap_dag
  show ?thesis by simp
qed

text \<open>
  The claim as stated fails at a node that has a consumer other than the root: in
  \<open>relu(relu(x))\<close> with \<open>x = 1.0\<close> the gradient of \<open>x\<close> is 1 after one pass and 3, not 2,
  after a second pass without reset, since the second pass propagates the gradient that
  the first has left at the inner node.
\<close>

theorem second_pass_not_twice:
  "gradient_in (backward_on 3 (chain_graph 4096 4144 4192)) 4096 = Some 1 \<and>
   gradient_in (backward_again 3 4192 (backward_on 3 (chain_graph 4096 4144 4192))) 4096 = Some 3"
  by (simp add: chain_graph_def build_defs run_defs rule_defs build_topo_numeral)

end
